theory Spec2Isabelle
  imports Complex_Main "HOL-Library.FSet"
begin

section \<open>Values and errors\<close>

text \<open>
  The exceptions that the modelled functions of \<^verbatim>\<open>internetconsultatie.py\<close> can raise.
  \<open>ExternalError\<close> stands for an exception raised inside a collaborator (the HTTP
  request, the HTML parser, textract, the file system).
\<close>

datatype error = AttributeError | ValueError | ZeroDivisionError | ExternalError

text \<open>
  A cell of a pandas frame, or a value of a response dict. \<open>NA\<close> is what
  \<^verbatim>\<open>pd.isna\<close> accepts (\<^verbatim>\<open>None\<close> and NaN), \<open>Str\<close> a Python \<^verbatim>\<open>str\<close>, \<open>Num\<close> a
  Python \<^verbatim>\<open>int\<close>.
\<close>

datatype cell = NA | Str string | Num int

fun isna :: "cell \<Rightarrow> bool" where
  "isna NA = True"
| "isna (Str s) = False"
| "isna (Num k) = False"

definition notna :: "cell \<Rightarrow> bool" where
  "notna c = (\<not> isna c)"

section \<open>Shingling: \<^verbatim>\<open>get_ngrams\<close>\<close>

text \<open>
  \<^verbatim>\<open>str.split()\<close> without arguments: the maximal runs of characters that are not
  whitespace, in order; no empty token. A character of the model is a code point
  below 256, and a text a list of them. The whitespace characters are the code points
  \<^verbatim>\<open>str.isspace\<close> accepts in that range: the tab, the line feed, the vertical tab,
  the form feed, the carriage return (9 to 13), the four separators 28 to 31, the
  space (32), the next-line character U+0085 (133) and the no-break space U+00A0
  (160). The whitespace characters of Python above that range (U+1680, U+2000 to
  U+200A, U+2028, U+2029, U+202F, U+205F and U+3000) are no characters of the model.
\<close>

definition isspace :: "char \<Rightarrow> bool" where
  "isspace c = (of_char c \<in> {9, 10, 11, 12, 13, 28, 29, 30, 31, 32, 133, 160 :: nat})"

fun split_acc :: "string \<Rightarrow> string \<Rightarrow> string list" where
  "split_acc tok [] = (if tok = [] then [] else [tok])"
| "split_acc tok (c # cs) =
     (if isspace c then (if tok = [] then split_acc [] cs else tok # split_acc [] cs)
      else split_acc (tok @ [c]) cs)"

definition str_split :: "string \<Rightarrow> string list" where
  "str_split s = split_acc [] s"

text \<open>
  \<^verbatim>\<open>nltk.ngrams(sequence, n)\<close> without padding, consumed to its end, as \<^verbatim>\<open>set\<close> does
  in \<^verbatim>\<open>get_ngrams\<close>. It is the sliding window of the \<^verbatim>\<open>itertools\<close> recipes:

  \<^verbatim>\<open>it = iter(sequence); window = deque(islice(it, n), maxlen=n)\<close>

  \<^verbatim>\<open>if len(window) == n: yield tuple(window)\<close>

  \<^verbatim>\<open>for x in it: window.append(x); yield tuple(window)\<close>

  A tuple of tokens is a list of tokens. \<open>n\<close> is a Python integer. For a negative
  \<open>n\<close>, \<^verbatim>\<open>islice\<close> raises \<^verbatim>\<open>ValueError\<close> when the generator is first asked for an
  item. For \<open>n = 0\<close> the window stays empty and the empty tuple is yielded once at the
  start and once for every item.
\<close>

definition deque_append :: "'a list \<Rightarrow> nat \<Rightarrow> 'a \<Rightarrow> 'a list" where
  "deque_append window maxlen x = (let w = window @ [x] in drop (length w - maxlen) w)"

fun sliding :: "'a list \<Rightarrow> nat \<Rightarrow> 'a list \<Rightarrow> 'a list list" where
  "sliding window maxlen [] = []"
| "sliding window maxlen (x # it) =
     (let w = deque_append window maxlen x in w # sliding w maxlen it)"

definition ngrams :: "'a list \<Rightarrow> int \<Rightarrow> error + 'a list list" where
  "ngrams sequence n =
     (if n < 0 then Inl ValueError
      else (let window = take (nat n) sequence;
                it = drop (nat n) sequence
            in Inr ((if int (length window) = n then [window] else []) @
                    sliding window (nat n) it)))"

type_synonym ngram_set = "string list fset"

text \<open>
  \<^verbatim>\<open>get_ngrams(text, text_attachment, n)\<close>, lines 117 to 125. A chosen cell that is
  neither missing nor a string has no \<^verbatim>\<open>split\<close> method. A missing or empty chosen
  text returns \<^verbatim>\<open>None\<close> before \<open>n\<close> is used.
\<close>

definition get_ngrams :: "cell \<Rightarrow> cell \<Rightarrow> int \<Rightarrow> error + ngram_set option" where
  "get_ngrams text text_attachment n =
     (let txt = (if notna text_attachment then text_attachment else text)
      in if isna txt \<or> txt = Str [] then Inr None
         else (case txt of
                 Str s \<Rightarrow>
                   (case ngrams (str_split s) n of
                      Inl e \<Rightarrow> Inl e
                    | Inr tuples \<Rightarrow> Inr (Some (fset_of_list tuples)))
               | _ \<Rightarrow> Inl AttributeError))"

section \<open>Similarity: \<^verbatim>\<open>jaccard_similarity\<close>\<close>

text \<open>
  Python's \<^verbatim>\<open>not s\<close> for a value that is \<^verbatim>\<open>None\<close> or a set: true for \<^verbatim>\<open>None\<close> and for
  the empty set.
\<close>

fun not_set :: "'a fset option \<Rightarrow> bool" where
  "not_set None = True"
| "not_set (Some a) = (a = {||})"

text \<open>
  True division, which raises on a zero divisor. The operands are the two
  cardinalities. Python rounds their quotient to the nearest double; the model keeps
  the exact quotient, a rational number, and a threshold is a rational number too.
  The rounding maps 0 to 0, 1 to 1 and no positive quotient of two cardinalities to
  zero, and it is monotone.
\<close>

definition truediv :: "rat \<Rightarrow> rat \<Rightarrow> error + rat" where
  "truediv a b = (if b = 0 then Inl ZeroDivisionError else Inr (a / b))"

definition jaccard_similarity :: "'a fset option \<Rightarrow> 'a fset option \<Rightarrow> error + rat option" where
  "jaccard_similarity ngrams1 ngrams2 =
     (if not_set ngrams1 \<or> not_set ngrams2 then Inr None
      else (case (ngrams1, ngrams2) of
              (Some a, Some b) \<Rightarrow>
                (let intersection = of_nat (fcard (a |\<inter>| b));
                     union = fcard (a |\<union>| b)
                 in if union = 0 then Inr None
                    else (case truediv intersection (of_nat union) of
                            Inl e \<Rightarrow> Inl e
                          | Inr q \<Rightarrow> Inr (Some q)))
            | _ \<Rightarrow> Inr None))"

section \<open>Frames\<close>

text \<open>
  A pandas frame after \<^verbatim>\<open>reset_index(drop=True)\<close>: the names of its columns in order,
  and its rows in order, the row at position \<open>j\<close> carrying the index label \<open>j\<close>. A row
  maps each column name to a cell. \<^verbatim>\<open>reset_index\<close> itself only replaces the index
  labels by the positions, so it is the identity on this representation.
\<close>

type_synonym row = "string \<rightharpoonup> cell"

record dataframe =
  columns :: "string list"
  rows :: "row list"

text \<open>\<^verbatim>\<open>df[c] = v\<close> for a scalar \<open>v\<close>: the column is overwritten, or appended if new.\<close>

definition set_column :: "dataframe \<Rightarrow> string \<Rightarrow> cell \<Rightarrow> dataframe" where
  "set_column df c v =
     \<lparr>columns = (if c \<in> set (columns df) then columns df else columns df @ [c]),
      rows = map (\<lambda>r. r(c \<mapsto> v)) (rows df)\<rparr>"

text \<open>
  \<^verbatim>\<open>df.loc[j, c] = v\<close>. For a label \<open>j\<close> that the frame has, one cell is written. For a
  label beyond the last row pandas enlarges the frame by a row that is missing
  everywhere else.
\<close>

definition loc_set :: "dataframe \<Rightarrow> nat \<Rightarrow> string \<Rightarrow> cell \<Rightarrow> dataframe" where
  "loc_set df j c v =
     (let df1 = (if c \<in> set (columns df) then df else set_column df c NA)
      in if j < length (rows df1)
         then df1\<lparr>rows := (rows df1)[j := (rows df1 ! j)(c \<mapsto> v)]\<rparr>
         else df1\<lparr>rows := rows df1 @
                [(\<lambda>k. if k \<in> set (columns df1) then Some NA else None)(c \<mapsto> v)]\<rparr>)"

text \<open>\<^verbatim>\<open>df.c\<close>: the cells of a column, or an \<^verbatim>\<open>AttributeError\<close> if there is none.\<close>

definition column :: "dataframe \<Rightarrow> string \<Rightarrow> error + cell list" where
  "column df c =
     (if c \<in> set (columns df)
      then Inr (map (\<lambda>r. case r c of None \<Rightarrow> NA | Some v \<Rightarrow> v) (rows df))
      else Inl AttributeError)"

text \<open>A list comprehension whose body can raise: the first exception ends it.\<close>

fun map_result :: "('a \<Rightarrow> error + 'b) \<Rightarrow> 'a list \<Rightarrow> error + 'b list" where
  "map_result f [] = Inr []"
| "map_result f (x # xs) =
     (case f x of
        Inl e \<Rightarrow> Inl e
      | Inr y \<Rightarrow> (case map_result f xs of Inl e \<Rightarrow> Inl e | Inr ys \<Rightarrow> Inr (y # ys)))"

section \<open>Text of attachments: \<^verbatim>\<open>extract_text\<close>\<close>

text \<open>
  \<^verbatim>\<open>extract_text(df, dir_attachments)\<close>, lines 101 to 114. The parameter \<open>textract\<close>
  stands for lines 107 to 112, which leave the repository: from the cell of the column
  \<^verbatim>\<open>attachment\<close> to the file path, and from the file to its text. It returns the text,
  or a missing value where textract raises the \<^verbatim>\<open>TypeError\<close> that line 110 catches, or
  the exception that escapes.
\<close>

fun extract_loop ::
  "(cell \<Rightarrow> error + cell) \<Rightarrow> (nat \<times> cell) list \<Rightarrow> dataframe \<Rightarrow> error + dataframe" where
  "extract_loop textract [] df = Inr df"
| "extract_loop textract ((i, attachment_name) # rest) df =
     (if notna attachment_name \<and> attachment_name \<noteq> Str []
      then (case textract attachment_name of
              Inl e \<Rightarrow> Inl e
            | Inr text_attachment \<Rightarrow>
                extract_loop textract rest (loc_set df i ''text_attachment'' text_attachment))
      else extract_loop textract rest df)"

definition extract_text :: "(cell \<Rightarrow> error + cell) \<Rightarrow> dataframe \<Rightarrow> error + dataframe" where
  "extract_text textract df0 =
     (let df = set_column df0 ''text_attachment'' NA
      in case column df ''attachment'' of
           Inl e \<Rightarrow> Inl e
         | Inr attachment \<Rightarrow> extract_loop textract (enumerate 0 attachment) df)"

section \<open>Clustering: \<^verbatim>\<open>add_components\<close>\<close>

text \<open>
  The two nested loops of lines 152 to 161. \<^verbatim>\<open>if not similarity: continue\<close> skips a
  similarity that is \<^verbatim>\<open>None\<close> and a similarity that is zero.
\<close>

fun inner_loop :: "rat \<Rightarrow> nat \<Rightarrow> 'a fset option \<Rightarrow> (nat \<times> 'a fset option) list \<Rightarrow>
    (nat \<times> nat) list \<Rightarrow> error + (nat \<times> nat) list" where
  "inner_loop threshold i n_gram1 [] edges = Inr edges"
| "inner_loop threshold i n_gram1 ((j, n_gram2) # rest) edges =
     (if \<not> j > i then inner_loop threshold i n_gram1 rest edges
      else (case jaccard_similarity n_gram1 n_gram2 of
              Inl e \<Rightarrow> Inl e
            | Inr None \<Rightarrow> inner_loop threshold i n_gram1 rest edges
            | Inr (Some similarity) \<Rightarrow>
                if similarity = 0 then inner_loop threshold i n_gram1 rest edges
                else if similarity \<ge> threshold
                  then inner_loop threshold i n_gram1 rest (edges @ [(i, j)])
                  else inner_loop threshold i n_gram1 rest edges))"

fun outer_loop :: "rat \<Rightarrow> (nat \<times> 'a fset option) list \<Rightarrow> (nat \<times> 'a fset option) list \<Rightarrow>
    (nat \<times> nat) list \<Rightarrow> error + (nat \<times> nat) list" where
  "outer_loop threshold n_grams [] edges = Inr edges"
| "outer_loop threshold n_grams ((i, n_gram1) # rest) edges =
     (case inner_loop threshold i n_gram1 n_grams edges of
        Inl e \<Rightarrow> Inl e
      | Inr edges' \<Rightarrow> outer_loop threshold n_grams rest edges')"

definition build_edges :: "'a fset option list \<Rightarrow> rat \<Rightarrow> error + (nat \<times> nat) list" where
  "build_edges n_grams threshold =
     outer_loop threshold (enumerate 0 n_grams) (enumerate 0 n_grams) []"

text \<open>
  \<^verbatim>\<open>nx.Graph()\<close> and \<^verbatim>\<open>G.add_edges_from(edges)\<close>: an undirected graph that holds the
  nodes in the order in which the edges first mention them, and the edges. It has no
  node that no edge mentions.
\<close>

record graph =
  nodes :: "nat list"
  edge_list :: "(nat \<times> nat) list"

definition empty_graph :: graph where
  "empty_graph = \<lparr>nodes = [], edge_list = []\<rparr>"

definition add_node :: "nat \<Rightarrow> nat list \<Rightarrow> nat list" where
  "add_node u ns = (if u \<in> set ns then ns else ns @ [u])"

definition add_edge :: "nat \<times> nat \<Rightarrow> graph \<Rightarrow> graph" where
  "add_edge e G =
     \<lparr>nodes = add_node (snd e) (add_node (fst e) (nodes G)),
      edge_list = edge_list G @ [e]\<rparr>"

definition add_edges_from :: "graph \<Rightarrow> (nat \<times> nat) list \<Rightarrow> graph" where
  "add_edges_from G es = fold add_edge es G"

definition neighbours :: "graph \<Rightarrow> nat \<Rightarrow> nat list" where
  "neighbours G v =
     concat (map (\<lambda>(u, w). (if u = v then [w] else []) @ (if w = v then [u] else []))
       (edge_list G))"

text \<open>
  \<^verbatim>\<open>nx.connected_components(G)\<close>: for every node, in the order of the nodes, that no
  earlier component contains, the nodes that a breadth-first search reaches from it.
  The search keeps the nodes seen so far and a queue of nodes whose neighbours are
  still to be visited. networkx returns each component as a set; here it is the list
  of its nodes in the order of discovery.
\<close>

function bfs :: "graph \<Rightarrow> nat list \<Rightarrow> nat list \<Rightarrow> nat list" where
  "bfs G seen [] = seen"
| "bfs G seen (v # queue) =
     (let new = remdups (filter (\<lambda>w. w \<notin> set seen) (neighbours G v))
      in bfs G (seen @ new) (queue @ new))"
  by pat_completeness auto

definition endpoints :: "graph \<Rightarrow> nat set" where
  "endpoints G = fst ` set (edge_list G) \<union> snd ` set (edge_list G)"

lemma neighbours_endpoints: "set (neighbours G v) \<subseteq> endpoints G"
  by (force simp: neighbours_def endpoints_def split: if_splits)

lemma finite_endpoints: "finite (endpoints G)"
  by (simp add: endpoints_def)

termination bfs
proof (relation "measures [\<lambda>(G, seen, queue). card (endpoints G - set seen),
                           \<lambda>(G, seen, queue). length queue]", goal_cases)
  case 1
  show ?case by simp
next
  case (2 G seen v queue new)
  show ?case
  proof (cases "new = []")
    case True
    then show ?thesis by simp
  next
    case False
    have sub: "set new \<subseteq> endpoints G - set seen"
      using 2 neighbours_endpoints [of G v] by auto
    from False obtain w where w: "w \<in> set new" by (cases new) auto
    have "endpoints G - set (seen @ new) \<subset> endpoints G - set seen"
      using sub w by auto
    then have "card (endpoints G - set (seen @ new)) < card (endpoints G - set seen)"
      by (intro psubset_card_mono) (simp_all add: finite_endpoints)
    then show ?thesis by simp
  qed
qed

declare bfs.simps [simp del]

fun components_from :: "graph \<Rightarrow> nat list \<Rightarrow> nat list \<Rightarrow> nat list list" where
  "components_from G seen [] = []"
| "components_from G seen (v # vs) =
     (if v \<in> set seen then components_from G seen vs
      else (let c = bfs G [v] [v] in c # components_from G (seen @ c) vs))"

definition connected_components :: "graph \<Rightarrow> nat list list" where
  "connected_components G = components_from G [] (nodes G)"

text \<open>
  Lines 164 to 166: the component number \<open>i\<close> is written into the cell
  \<^verbatim>\<open>component\<close> of each of its nodes.
\<close>

fun assign_components :: "nat \<Rightarrow> nat list list \<Rightarrow> dataframe \<Rightarrow> dataframe" where
  "assign_components i [] df = df"
| "assign_components i (component # rest) df =
     assign_components (Suc i) rest
       (fold (\<lambda>j d. loc_set d j ''component'' (Num (int i))) component df)"

text \<open>
  \<^verbatim>\<open>add_components(df, n, threshold, dir_attachments)\<close>, lines 139 to 167, as the
  sequence of its four blocks: the frame is prepared (lines 141 to 146), the shingles
  of its rows are computed (lines 147 to 151), the edges are collected (lines 152 to
  161), and the components are written (lines 162 to 166).
\<close>

definition prepare_frame :: "(cell \<Rightarrow> error + cell) \<Rightarrow> dataframe \<Rightarrow> error + dataframe" where
  "prepare_frame textract df0 =
     (let df = set_column df0 ''component'' NA
      in if ''text_attachment'' \<notin> set (columns df) then extract_text textract df
         else Inr df)"

definition frame_ngrams :: "dataframe \<Rightarrow> int \<Rightarrow> error + ngram_set option list" where
  "frame_ngrams df n =
     (case column df ''text'' of
        Inl e \<Rightarrow> Inl e
      | Inr text \<Rightarrow>
         (case column df ''text_attachment'' of
            Inl e \<Rightarrow> Inl e
          | Inr text_attachment \<Rightarrow>
              map_result (\<lambda>(t, a). get_ngrams t a n) (zip text text_attachment)))"

definition write_components :: "(nat \<times> nat) list \<Rightarrow> dataframe \<Rightarrow> dataframe" where
  "write_components edges df =
     (let G = add_edges_from empty_graph edges
      in assign_components 0 (connected_components G) df)"

definition add_components ::
  "(cell \<Rightarrow> error + cell) \<Rightarrow> dataframe \<Rightarrow> int \<Rightarrow> rat \<Rightarrow> error + dataframe" where
  "add_components textract df0 n threshold =
     (case prepare_frame textract df0 of
        Inl e \<Rightarrow> Inl e
      | Inr df \<Rightarrow>
         (case frame_ngrams df n of
            Inl e \<Rightarrow> Inl e
          | Inr n_grams \<Rightarrow>
             (case build_edges n_grams threshold of
                Inl e \<Rightarrow> Inl e
              | Inr edges \<Rightarrow> Inr (write_components edges df))))"

section \<open>The crawl: \<^verbatim>\<open>download_responses\<close>\<close>

text \<open>
  Lines 198 to 237 of \<^verbatim>\<open>download_responses\<close>: the stored state is loaded and the result
  pages are walked. What leaves the repository is a parameter: the outcome of requesting
  and parsing a result page or a response page. The checkpoint of lines 209 to 212
  writes a file and the pause of line 237 waits; neither changes a variable of the loop,
  and they are left out.
\<close>

definition BASE :: string where
  "BASE = ''https://www.internetconsultatie.nl''"

definition SEP :: string where
  "SEP = [CHR 0x0A] @ ''###'' @ [CHR 0x0A]"

text \<open>\<^verbatim>\<open>sep.join(xs)\<close>.\<close>

fun join :: "string \<Rightarrow> string list \<Rightarrow> string" where
  "join sep [] = []"
| "join sep [x] = x"
| "join sep (x # y # ys) = x @ sep @ join sep (y # ys)"

text \<open>
  A parsed result page, as far as the loop reads it: the items of the result list, each
  with the \<^verbatim>\<open>href\<close> of its first link if it has a link, or nothing if the page has no
  result list; and the links of the pagination block, each with the integer that its
  text denotes (nothing if \<^verbatim>\<open>int\<close> rejects the text) and whether it has an \<^verbatim>\<open>href\<close>,
  or nothing if the page has no pagination block.
\<close>

record results_page =
  result_list :: "string option list option"
  pagination :: "(int option \<times> bool) list option"

text \<open>
  A parsed response page: the rows of its table as the pairs that \<^verbatim>\<open>extract_kv\<close>
  returns (nothing if the page has no such table), the texts of its block quotes, and
  the identifiers of the attachments that \<^verbatim>\<open>download_files\<close> saves, or the exception
  it raises.
\<close>

record response_page =
  table :: "(string option \<times> string option) list option"
  blockquotes :: "string list"
  downloads :: "error + string list"

text \<open>The site: what requesting a result page by its number, or a response by its url, gives.\<close>

record env =
  fetch_results :: "nat \<Rightarrow> error + results_page"
  fetch_response :: "string \<Rightarrow> error + response_page"

text \<open>\<^verbatim>\<open>get_url\<close> (lines 22 to 27) and \<^verbatim>\<open>get_result_urls\<close> (lines 38 to 43).\<close>

definition get_url :: "string option \<Rightarrow> string option" where
  "get_url item = (case item of None \<Rightarrow> None | Some href \<Rightarrow> Some (BASE @ href))"

definition get_result_urls :: "results_page \<Rightarrow> error + string list" where
  "get_result_urls soup =
     (case result_list soup of
        None \<Rightarrow> Inl AttributeError
      | Some results \<Rightarrow>
          Inr (concat (map (\<lambda>li. case get_url li of
                                    None \<Rightarrow> []
                                  | Some url \<Rightarrow> if url = [] then [] else [url])
                 results)))"

text \<open>\<^verbatim>\<open>parse_table\<close> (lines 59 to 63): later rows overwrite earlier ones, rows without a key are dropped.\<close>

definition parse_table :: "(string option \<times> string option) list \<Rightarrow> row" where
  "parse_table kv =
     fold (\<lambda>(key, v) data.
             case key of
               None \<Rightarrow> data
             | Some k \<Rightarrow> if k = [] then data
                         else data(k \<mapsto> (case v of None \<Rightarrow> NA | Some s \<Rightarrow> Str s)))
       kv Map.empty"

text \<open>\<^verbatim>\<open>get_response\<close> (lines 66 to 81).\<close>

definition get_response ::
  "(string \<Rightarrow> error + response_page) \<Rightarrow> string \<Rightarrow> bool \<Rightarrow> bool \<Rightarrow> error + row" where
  "get_response http url name download_attachments =
     (case http url of
        Inl e \<Rightarrow> Inl e
      | Inr soup \<Rightarrow>
         (case table soup of
            None \<Rightarrow> Inl AttributeError
          | Some kv \<Rightarrow>
             (let response0 = parse_table kv;
                  response1 = (if \<not> name then response0(''Naam'' := None) else response0);
                  response2 = response1(''url'' \<mapsto> Str url);
                  response3 = response2(''text'' \<mapsto> Str (join SEP (blockquotes soup)))
              in if download_attachments
                 then (case downloads soup of
                         Inl e \<Rightarrow> Inl e
                       | Inr download_ids \<Rightarrow>
                           Inr (response3(''attachment'' \<mapsto> Str (join '','' download_ids))))
                 else Inr response3)))"

text \<open>
  Lines 227 to 233: the largest page number among the pagination links that have an
  \<^verbatim>\<open>href\<close>. \<^verbatim>\<open>max\<close> of an empty list raises a \<^verbatim>\<open>ValueError\<close>.
\<close>

definition max_page_of :: "results_page \<Rightarrow> error + int" where
  "max_page_of soup =
     (case pagination soup of
        None \<Rightarrow> Inl AttributeError
      | Some links \<Rightarrow>
         (case map_result (\<lambda>(txt, href). case txt of None \<Rightarrow> Inl ValueError | Some k \<Rightarrow> Inr k)
                 (filter snd links) of
            Inl e \<Rightarrow> Inl e
          | Inr ks \<Rightarrow> if ks = [] then Inl ValueError else Inr (Max (set ks))))"

text \<open>
  Line 226, \<^verbatim>\<open>if not max_page\<close>: the bound is computed while it is \<^verbatim>\<open>None\<close> or
  zero, and kept otherwise.
\<close>

definition page_bound :: "results_page \<Rightarrow> int option \<Rightarrow> error + int" where
  "page_bound soup max_page =
     (case max_page of
        None \<Rightarrow> max_page_of soup
      | Some m \<Rightarrow> if m = 0 then max_page_of soup else Inr m)"

text \<open>
  The loop of lines 207 to 237. Its state is the page number, the page bound, the
  responses collected so far, and, as a record of its requests, the numbers of the
  result pages it has requested. One pass requests a result page, fetches the responses
  whose url is not in \<open>done\<close>, increments the page number, fixes the bound if there is
  none yet, and stops when the page number exceeds the bound.
\<close>

function download_loop ::
  "env \<Rightarrow> bool \<Rightarrow> bool \<Rightarrow> cell list \<Rightarrow> nat \<Rightarrow> int option \<Rightarrow> row list \<Rightarrow> nat list \<Rightarrow>
   error + (row list \<times> nat list)" where
  "download_loop env name dl done page max_page responses requested =
     (case fetch_results env page of
        Inl e \<Rightarrow> Inl e
      | Inr soup_results \<Rightarrow>
     (case get_result_urls soup_results of
        Inl e \<Rightarrow> Inl e
      | Inr result_urls \<Rightarrow>
     (case map_result (\<lambda>url. get_response (fetch_response env) url name dl)
             (filter (\<lambda>url. Str url \<notin> set done) result_urls) of
        Inl e \<Rightarrow> Inl e
      | Inr new \<Rightarrow>
     (case page_bound soup_results max_page of
        Inl e \<Rightarrow> Inl e
      | Inr m \<Rightarrow>
          if int (Suc page) > m then Inr (responses @ new, requested @ [page])
          else download_loop env name dl done (Suc page) (Some m)
                 (responses @ new) (requested @ [page])))))"
  by pat_completeness auto

text \<open>The bound that a pass of the loop works with; the distance to it decreases.\<close>

definition loop_bound :: "env \<Rightarrow> nat \<Rightarrow> int option \<Rightarrow> int" where
  "loop_bound env page max_page =
     (case fetch_results env page of
        Inl e \<Rightarrow> 0
      | Inr soup \<Rightarrow> (case page_bound soup max_page of Inl e \<Rightarrow> 0 | Inr m \<Rightarrow> m))"

termination download_loop
proof (relation "measure (\<lambda>(env, name, dl, done, page, max_page, responses, requested).
                    nat (loop_bound env page max_page - int page))", goal_cases)
  case 1
  show ?case by simp
next
  case (2 env name dl "done" page max_page responses requested soup urls new m)
  from 2 have here: "loop_bound env page max_page = m"
    by (simp add: loop_bound_def)
  from 2 have le: "int (Suc page) \<le> m" by simp
  have there: "loop_bound env (Suc page) (Some m) = m \<or> loop_bound env (Suc page) (Some m) = 0"
    using le by (auto simp: loop_bound_def page_bound_def split: sum.splits)
  show ?case using here there le by auto
qed

declare download_loop.simps [simp del]

text \<open>
  Lines 198 to 206 and the loop: \<open>stored\<close> is the frame that \<^verbatim>\<open>pd.read_excel\<close> reads,
  or nothing if there is no file. The result is the list \<^verbatim>\<open>responses\<close> at line 238,
  with the record of the requests.
\<close>

definition download_responses_crawl ::
  "env \<Rightarrow> bool \<Rightarrow> bool \<Rightarrow> dataframe option \<Rightarrow> error + (row list \<times> nat list)" where
  "download_responses_crawl env name dl stored =
     (case stored of
        None \<Rightarrow> download_loop env name dl [] 1 None [] []
      | Some df \<Rightarrow>
         (case column df ''url'' of
            Inl e \<Rightarrow> Inl e
          | Inr done \<Rightarrow> download_loop env name dl done 1 None (rows df) []))"



section \<open>Definitions that follow the specification\<close>

text \<open>
  The data model of the specification gives a record an optional inline text and an
  optional attachment text: a cell that is missing or a string.
\<close>

definition is_text :: "cell \<Rightarrow> bool" where
  "is_text c = (case c of Num k \<Rightarrow> False | _ \<Rightarrow> True)"

text \<open>
  TextNormalizer, in the words of the specification: the attachment text if it is
  present and non-empty; else the inline text if present and non-empty; else absent.
\<close>

definition present_nonempty :: "cell \<Rightarrow> bool" where
  "present_nonempty c = (case c of Str s \<Rightarrow> s \<noteq> [] | _ \<Rightarrow> False)"

definition normalize_spec :: "cell \<Rightarrow> cell \<Rightarrow> cell" where
  "normalize_spec inline_text attachment_text =
     (if present_nonempty attachment_text then attachment_text
      else if present_nonempty inline_text then inline_text
      else NA)"


section \<open>Auxiliary definitions for the proofs\<close>

text \<open>
  The test that the inner loop of \<^verbatim>\<open>add_components\<close> applies to a pair (lines 157 to
  160): the similarity is defined, it is not falsy, and it reaches the threshold.
\<close>

definition passes :: "rat \<Rightarrow> 'a fset option \<Rightarrow> 'a fset option \<Rightarrow> bool" where
  "passes threshold g1 g2 =
     (case jaccard_similarity g1 g2 of
        Inr (Some s) \<Rightarrow> s \<noteq> 0 \<and> threshold \<le> s
      | _ \<Rightarrow> False)"

text \<open>The edges that one pass of the inner loop appends for the record \<open>p\<close>.\<close>

definition row_edges ::
  "rat \<Rightarrow> (nat \<times> 'a fset option) list \<Rightarrow> nat \<times> 'a fset option \<Rightarrow> (nat \<times> nat) list" where
  "row_edges threshold js p =
     map (\<lambda>q. (fst p, fst q)) (filter (\<lambda>q. fst p < fst q \<and> passes threshold (snd p) (snd q)) js)"

text \<open>The pairs of nodes that an edge of the graph joins, in either direction.\<close>

definition adj_rel :: "graph \<Rightarrow> (nat \<times> nat) set" where
  "adj_rel G = set (edge_list G) \<union> (set (edge_list G))\<inverse>"

text \<open>No two lists of the list share an element.\<close>

definition disjoint_lists :: "nat list list \<Rightarrow> bool" where
  "disjoint_lists cs = sorted_wrt (\<lambda>c d. set c \<inter> set d = {}) cs"

text \<open>
  The records that some edge mentions, and the pairs of records that a path of edges
  connects.
\<close>

definition linked :: "(nat \<times> nat) list \<Rightarrow> nat set" where
  "linked edges = fst ` set edges \<union> snd ` set edges"

definition connected :: "(nat \<times> nat) list \<Rightarrow> (nat \<times> nat) set" where
  "connected edges = (set edges \<union> (set edges)\<inverse>)\<^sup>*"

text \<open>
  The value of \<^verbatim>\<open>df.loc[j, 'component']\<close>, and the column \<^verbatim>\<open>component\<close> of the frame
  that a call returns.
\<close>

definition component_of :: "dataframe \<Rightarrow> nat \<Rightarrow> cell" where
  "component_of df j = (case (rows df ! j) ''component'' of None \<Rightarrow> NA | Some v \<Rightarrow> v)"

definition component_column :: "error + dataframe \<Rightarrow> cell list option" where
  "component_column result =
     (case result of
        Inl e \<Rightarrow> None
      | Inr df \<Rightarrow> (case column df ''component'' of Inl e \<Rightarrow> None | Inr cs \<Rightarrow> Some cs))"

text \<open>
  The urls that the result page \<open>p\<close> lists, the responses that one pass of the crawl
  loop adds for the page \<open>p\<close> (lines 214 to 223), and the page bound that the first
  result page gives (lines 227 to 233).
\<close>

definition urls_of :: "env \<Rightarrow> nat \<Rightarrow> string list" where
  "urls_of env p =
     (case fetch_results env p of
        Inl e \<Rightarrow> []
      | Inr soup \<Rightarrow> (case get_result_urls soup of Inl e \<Rightarrow> [] | Inr urls \<Rightarrow> urls))"

definition page_responses ::
  "env \<Rightarrow> bool \<Rightarrow> bool \<Rightarrow> cell list \<Rightarrow> nat \<Rightarrow> error + row list" where
  "page_responses env name dl done p =
     (case fetch_results env p of
        Inl e \<Rightarrow> Inl e
      | Inr soup \<Rightarrow>
         (case get_result_urls soup of
            Inl e \<Rightarrow> Inl e
          | Inr urls \<Rightarrow>
              map_result (\<lambda>url. get_response (fetch_response env) url name dl)
                (filter (\<lambda>url. Str url \<notin> set done) urls)))"

text \<open>
  The page numbers of the pagination links that have an \<^verbatim>\<open>href\<close>, as a set.
\<close>

definition linked_pages :: "(int option \<times> bool) list \<Rightarrow> int set" where
  "linked_pages links = {k. (Some k, True) \<in> set links}"

text \<open>
  The identifier of a record; the records and the identifiers that the crawl starts
  from (lines 198 to 204); and the identifiers of the records that a crawl returns.
\<close>

definition url_cell :: "row \<Rightarrow> cell option" where
  "url_cell r = r ''url''"

definition prior_rows :: "dataframe option \<Rightarrow> row list" where
  "prior_rows stored = (case stored of None \<Rightarrow> [] | Some df \<Rightarrow> rows df)"

definition prior_done :: "dataframe option \<Rightarrow> cell list" where
  "prior_done stored =
     (case stored of
        None \<Rightarrow> []
      | Some df \<Rightarrow> map (\<lambda>r. case r ''url'' of None \<Rightarrow> NA | Some v \<Rightarrow> v) (rows df))"

definition stored_urls :: "error + (row list \<times> nat list) \<Rightarrow> cell option list option" where
  "stored_urls result =
     (case result of Inl e \<Rightarrow> None | Inr (rs, ps) \<Rightarrow> Some (map url_cell rs))"

section \<open>Example inputs\<close>

text \<open>
  The bigrams of \<^verbatim>\<open>'the quick brown fox jumps'\<close> and of \<^verbatim>\<open>'the quick brown fox leaps'\<close>,
  and the unigrams of \<^verbatim>\<open>'a'\<close> and of \<^verbatim>\<open>'b'\<close>.
\<close>

definition bigrams_A :: ngram_set where
  "bigrams_A = fset_of_list
     [[''the'', ''quick''], [''quick'', ''brown''], [''brown'', ''fox''], [''fox'', ''jumps'']]"

definition bigrams_B :: ngram_set where
  "bigrams_B = fset_of_list
     [[''the'', ''quick''], [''quick'', ''brown''], [''brown'', ''fox''], [''fox'', ''leaps'']]"

definition unigram_a :: ngram_set where
  "unigram_a = fset_of_list [[''a'']]"

definition unigram_b :: ngram_set where
  "unigram_b = fset_of_list [[''b'']]"

definition three_docs :: "ngram_set option list" where
  "three_docs = [Some bigrams_A, Some bigrams_B, Some bigrams_A]"

text \<open>
  Three records: the two texts of the scenario of the specification, the second of
  them as the text of an attachment, and between them a record without text.
\<close>

definition docs_frame :: dataframe where
  "docs_frame =
     \<lparr>columns = [''url'', ''text'', ''text_attachment''],
      rows = [[''url'' \<mapsto> Str ''u1'', ''text'' \<mapsto> Str ''the quick brown fox jumps'',
               ''text_attachment'' \<mapsto> NA],
              [''url'' \<mapsto> Str ''u2'', ''text'' \<mapsto> Str [], ''text_attachment'' \<mapsto> NA],
              [''url'' \<mapsto> Str ''u3'', ''text'' \<mapsto> Str ''see attachment'',
               ''text_attachment'' \<mapsto> Str ''the quick brown fox leaps'']]\<rparr>"

definition docs_frame_out :: dataframe where
  "docs_frame_out =
     \<lparr>columns = [''url'', ''text'', ''text_attachment'', ''component''],
      rows = [[''url'' \<mapsto> Str ''u1'', ''text'' \<mapsto> Str ''the quick brown fox jumps'',
               ''text_attachment'' \<mapsto> NA, ''component'' \<mapsto> Num 0],
              [''url'' \<mapsto> Str ''u2'', ''text'' \<mapsto> Str [], ''text_attachment'' \<mapsto> NA,
               ''component'' \<mapsto> NA],
              [''url'' \<mapsto> Str ''u3'', ''text'' \<mapsto> Str ''see attachment'',
               ''text_attachment'' \<mapsto> Str ''the quick brown fox leaps'',
               ''component'' \<mapsto> Num 0]]\<rparr>"

text \<open>A text extraction that fails whenever it is called.\<close>

definition no_textract :: "cell \<Rightarrow> error + cell" where
  "no_textract attachment_name = Inl ExternalError"

text \<open>Two records, one without text, one with three words.\<close>

definition solo_frame :: dataframe where
  "solo_frame =
     \<lparr>columns = [''text'', ''text_attachment''],
      rows = [[''text'' \<mapsto> Str [], ''text_attachment'' \<mapsto> NA],
              [''text'' \<mapsto> Str ''one two three'', ''text_attachment'' \<mapsto> NA]]\<rparr>"

text \<open>
  Two sources of two result pages each. In the first no url is listed twice, and the
  second page has no pagination block. In the second the url \<^verbatim>\<open>/b\<close> is listed on both
  pages, as happens when a response arrives between the two requests and moves the
  listing by one place.
\<close>

definition plain_response :: "string \<Rightarrow> error + response_page" where
  "plain_response url =
     Inr \<lparr>table = Some [(Some ''Datum'', Some ''1 mei'')], blockquotes = [''q1'', ''q2''],
          downloads = Inr []\<rparr>"

definition clean_pages :: env where
  "clean_pages =
     \<lparr>fetch_results = (\<lambda>p.
        if p = 1 then Inr \<lparr>result_list = Some [Some ''/a'', None, Some ''/b''],
                           pagination = Some [(Some 1, False), (Some 2, True), (None, False)]\<rparr>
        else if p = 2 then Inr \<lparr>result_list = Some [Some ''/c''], pagination = None\<rparr>
        else Inl ExternalError),
      fetch_response = plain_response\<rparr>"

definition shifted_pages :: env where
  "shifted_pages =
     \<lparr>fetch_results = (\<lambda>p.
        if p = 1 then Inr \<lparr>result_list = Some [Some ''/a'', Some ''/b''],
                           pagination = Some [(Some 1, False), (Some 2, True)]\<rparr>
        else if p = 2 then Inr \<lparr>result_list = Some [Some ''/b'', Some ''/c''],
                                pagination = Some [(Some 1, True), (Some 2, False)]\<rparr>
        else Inl ExternalError),
      fetch_response = plain_response\<rparr>"

definition plain_row :: "string \<Rightarrow> row" where
  "plain_row url =
     [''Datum'' \<mapsto> Str ''1 mei'', ''url'' \<mapsto> Str url,
      ''text'' \<mapsto> Str (join SEP [''q1'', ''q2''])]"

definition clean_rows :: "row list" where
  "clean_rows = [plain_row (BASE @ ''/a''), plain_row (BASE @ ''/b''), plain_row (BASE @ ''/c'')]"

definition clean_frame :: dataframe where
  "clean_frame = \<lparr>columns = [''Datum'', ''url'', ''text''], rows = clean_rows\<rparr>"

text \<open>
  A source of three result pages. The pagination block of the first page links the
  pages 2 and 3; its entries for the pages 1 and 7 and its last entry, which is no
  number, have no \<^verbatim>\<open>href\<close>. The second page links a page 9.
\<close>

definition first_links :: "(int option \<times> bool) list" where
  "first_links = [(Some 1, False), (Some 2, True), (Some 3, True), (Some 7, False), (None, False)]"

definition first_page :: results_page where
  "first_page = \<lparr>result_list = Some [Some ''/a''], pagination = Some first_links\<rparr>"

definition three_pages :: env where
  "three_pages =
     \<lparr>fetch_results = (\<lambda>p.
        if p = 1 then Inr first_page
        else if p = 2 then Inr \<lparr>result_list = Some [Some ''/b''],
                                pagination = Some [(Some 1, True), (Some 9, True)]\<rparr>
        else if p = 3 then Inr \<lparr>result_list = Some [Some ''/c''], pagination = None\<rparr>
        else Inl ExternalError),
      fetch_response = plain_response\<rparr>"



section \<open>Properties of the similarity score\<close>

lemma fcard_inter_le_union: "fcard (a |\<inter>| b) \<le> fcard (a |\<union>| b)"
  by (rule fcard_mono) auto

lemma fcard_union_pos: "a \<noteq> {||} \<Longrightarrow> 0 < fcard (a |\<union>| b)"
  by (metis fcard_fempty fcard_mono funion_upper1 fsubset_fempty gr0I le_zero_eq fcard_seteq
      fempty_fsubsetI)

lemma jaccard_similarity_defined:
  assumes "a \<noteq> {||}" and "b \<noteq> {||}"
  shows "jaccard_similarity (Some a) (Some b) =
           Inr (Some (of_nat (fcard (a |\<inter>| b)) / of_nat (fcard (a |\<union>| b))))"
  using assms fcard_union_pos [of a b]
  by (simp add: jaccard_similarity_def truediv_def Let_def)

lemma jaccard_similarity_undefined:
  "not_set x \<or> not_set y \<Longrightarrow> jaccard_similarity x y = Inr None"
  by (simp add: jaccard_similarity_def)

lemma quotient_range:
  "m \<le> n \<Longrightarrow> 0 < n \<Longrightarrow> 0 \<le> (of_nat m / of_nat n :: rat) \<and> (of_nat m / of_nat n :: rat) \<le> 1"
  by simp

lemma jaccard_similarity_cases:
  "jaccard_similarity x y =
     (if not_set x \<or> not_set y then Inr None
      else Inr (Some (of_nat (fcard (the x |\<inter>| the y)) / of_nat (fcard (the x |\<union>| the y)))))"
proof (cases "not_set x \<or> not_set y")
  case True
  then show ?thesis by (simp add: jaccard_similarity_undefined)
next
  case False
  then obtain a b where "x = Some a" "y = Some b" "a \<noteq> {||}" "b \<noteq> {||}"
    by (cases x; cases y) auto
  then show ?thesis by (simp add: jaccard_similarity_defined)
qed

lemma jaccard_similarity_no_error: "jaccard_similarity x y \<noteq> Inl e"
  by (simp add: jaccard_similarity_cases)


lemma not_set_iff: "not_set x \<longleftrightarrow> x = None \<or> x = Some {||}"
  by (cases x) auto

text \<open>
  Claim C7. \<^verbatim>\<open>jaccard_similarity\<close> never raises, in particular no division by zero.
  It returns \<^verbatim>\<open>None\<close> only when one of its arguments is \<^verbatim>\<open>None\<close> or the empty set;
  otherwise both arguments are non-empty sets, the union has a positive size, and the
  result is the size of the intersection divided by the size of the union, a value
  between 0 and 1.
\<close>

theorem jaccard_similarity_total:
  "(case jaccard_similarity x y of
      Inl e \<Rightarrow> False
    | Inr None \<Rightarrow> x = None \<or> x = Some {||} \<or> y = None \<or> y = Some {||}
    | Inr (Some s) \<Rightarrow>
        (\<exists>a b. x = Some a \<and> y = Some b \<and> a \<noteq> {||} \<and> b \<noteq> {||} \<and>
           0 < fcard (a |\<union>| b) \<and>
           s = of_nat (fcard (a |\<inter>| b)) / of_nat (fcard (a |\<union>| b))) \<and>
        0 \<le> s \<and> s \<le> 1)"
proof (cases "not_set x \<or> not_set y")
  case True
  then show ?thesis
    by (auto simp: jaccard_similarity_undefined not_set_iff)
next
  case False
  then obtain a b where xy: "x = Some a" "y = Some b" "a \<noteq> {||}" "b \<noteq> {||}"
    by (cases x; cases y) auto
  have pos: "0 < fcard (a |\<union>| b)" using xy by (simp add: fcard_union_pos)
  have "jaccard_similarity x y =
          Inr (Some (of_nat (fcard (a |\<inter>| b)) / of_nat (fcard (a |\<union>| b))))"
    using xy by (simp add: jaccard_similarity_defined)
  then show ?thesis
    using xy pos quotient_range [OF fcard_inter_le_union pos] by simp
qed

lemma fcard_A_B: "fcard (bigrams_A |\<inter>| bigrams_B) = 3" "fcard (bigrams_A |\<union>| bigrams_B) = 5"
  by code_simp+

lemma bigrams_nonempty: "bigrams_A \<noteq> {||}" "bigrams_B \<noteq> {||}"
  by code_simp+

lemma jaccard_A_B: "jaccard_similarity (Some bigrams_A) (Some bigrams_B) = Inr (Some (3 / 5))"
  by (simp add: jaccard_similarity_defined bigrams_nonempty fcard_A_B)

text \<open>
  The first scenario of the specification: the bigrams of two five-word texts that
  differ in the last word have similarity 3/5.
\<close>

theorem jaccard_similarity_total_witness:
  "jaccard_similarity (Some bigrams_A) (Some bigrams_B) = Inr (Some (3 / 5)) \<and>
   (0::rat) \<le> 3 / 5 \<and> (3 / 5 :: rat) \<le> 1"
  using jaccard_similarity_total [of "Some bigrams_A" "Some bigrams_B"]
  by (simp add: jaccard_A_B)

section \<open>Properties of shingling\<close>


lemma get_ngrams_inline:
  "get_ngrams (Str s) NA n =
     (if s = [] then Inr None
      else (case ngrams (str_split s) n of
              Inl e \<Rightarrow> Inl e
            | Inr tuples \<Rightarrow> Inr (Some (fset_of_list tuples))))"
  by (simp add: get_ngrams_def notna_def)

lemma get_ngrams_attachment:
  "get_ngrams text (Str s) n =
     (if s = [] then Inr None
      else (case ngrams (str_split s) n of
              Inl e \<Rightarrow> Inl e
            | Inr tuples \<Rightarrow> Inr (Some (fset_of_list tuples))))"
  by (simp add: get_ngrams_def notna_def)

text \<open>
  Claim C2, amended. For a record whose inline text and attachment text are strings or
  missing, the text that is shingled is the canonical text of the specification (the
  attachment text when it is present and non-empty; the inline text, when present and
  non-empty, if the attachment text is missing; nothing otherwise), except for a
  present-but-empty attachment text: that one is chosen too, and the result is
  \<^verbatim>\<open>None\<close> whatever the inline text is.
\<close>

theorem get_ngrams_selection:
  assumes "is_text text" and "is_text text_attachment"
  shows "get_ngrams text text_attachment n =
           (if text_attachment = Str [] then Inr None
            else get_ngrams (normalize_spec text text_attachment) NA n)"
  using assms
  by (cases "text"; cases text_attachment)
     (auto simp: get_ngrams_def notna_def normalize_spec_def present_nonempty_def is_text_def)

theorem get_ngrams_selection_witness:
  "is_text (Str ''inline words'') \<and> is_text (Str ''attached words'') \<and>
   get_ngrams (Str ''inline words'') (Str ''attached words'') 1 =
     get_ngrams (Str ''attached words'') NA 1 \<and>
   get_ngrams (Str ''inline words'') (Str ''attached words'') 1 =
     Inr (Some {|[''attached''], [''words'']|})"
proof -
  have t: "is_text (Str ''inline words'')" "is_text (Str ''attached words'')"
    by (simp_all add: is_text_def)
  have n: "normalize_spec (Str ''inline words'') (Str ''attached words'') = Str ''attached words''"
    by (simp add: normalize_spec_def present_nonempty_def)
  have v: "get_ngrams (Str ''attached words'') NA 1 = Inr (Some {|[''attached''], [''words'']|})"
    by (simp add: get_ngrams_inline str_split_def isspace_def ngrams_def deque_append_def)
  from get_ngrams_selection [OF t, of 1] n v t show ?thesis by simp
qed

text \<open>
  Claim C2 as stated fails: with inline text \<^verbatim>\<open>'a b'\<close> and the empty string as attachment
  text the canonical text of the specification is the inline text, whose unigrams are
  \<^verbatim>\<open>('a',)\<close> and \<^verbatim>\<open>('b',)\<close>, and \<^verbatim>\<open>get_ngrams\<close> returns \<^verbatim>\<open>None\<close>.
\<close>

theorem empty_attachment_counterexample:
  "normalize_spec (Str ''a b'') (Str []) = Str ''a b'' \<and>
   get_ngrams (Str ''a b'') NA 1 = Inr (Some {|[''a''], [''b'']|}) \<and>
   get_ngrams (Str ''a b'') (Str []) 1 = Inr None"
  by (simp add: normalize_spec_def present_nonempty_def get_ngrams_inline get_ngrams_attachment
      str_split_def isspace_def ngrams_def deque_append_def)











lemma get_ngrams_empty: "get_ngrams (Str []) NA n = Inr None"
  by (simp add: get_ngrams_inline)

lemma shingles_A:
  "get_ngrams (Str ''the quick brown fox jumps'') NA 2 = Inr (Some bigrams_A)"
  by (simp add: get_ngrams_inline bigrams_A_def str_split_def isspace_def ngrams_def
      deque_append_def)

lemma shingles_B:
  "get_ngrams text (Str ''the quick brown fox leaps'') 2 = Inr (Some bigrams_B)"
  by (simp add: get_ngrams_attachment bigrams_B_def str_split_def isspace_def ngrams_def
      deque_append_def)







section \<open>Properties of the edge list\<close>

lemma passes_iff:
  "passes threshold g1 g2 \<longleftrightarrow>
     (\<exists>s. jaccard_similarity g1 g2 = Inr (Some s) \<and> s \<noteq> 0 \<and> threshold \<le> s)"
  by (auto simp: passes_def split: sum.splits option.splits)

lemma inner_loop_eq:
  "inner_loop threshold i g1 js edges = Inr (edges @ row_edges threshold js (i, g1))"
proof (induction js arbitrary: edges)
  case Nil
  show ?case by (simp add: row_edges_def)
next
  case (Cons q js)
  obtain j g2 where q: "q = (j, g2)" by (cases q)
  show ?case
  proof (cases "jaccard_similarity g1 g2")
    case (Inl e)
    then show ?thesis using jaccard_similarity_no_error by blast
  next
    case (Inr r)
    then show ?thesis
      using Cons.IH by (cases r) (simp_all add: q row_edges_def passes_def)
  qed
qed

lemma outer_loop_eq:
  "outer_loop threshold js ps edges =
     Inr (edges @ concat (map (row_edges threshold js) ps))"
proof (induction ps arbitrary: edges)
  case Nil
  show ?case by simp
next
  case (Cons p ps)
  obtain i g1 where p: "p = (i, g1)" by (cases p)
  show ?case by (simp add: p inner_loop_eq Cons.IH)
qed

lemma build_edges_eq:
  "build_edges n_grams threshold =
     Inr (concat (map (row_edges threshold (enumerate 0 n_grams)) (enumerate 0 n_grams)))"
  by (simp add: build_edges_def outer_loop_eq)

lemma set_row_edges:
  "set (row_edges threshold (enumerate 0 xs) (i, g1)) =
     {(i', j). i' = i \<and> i < j \<and> j < length xs \<and> passes threshold g1 (xs ! j)}"
  by (auto simp: row_edges_def in_set_enumerate_eq image_iff)

lemma enumerate_image:
  "set (enumerate 0 xs) = (\<lambda>i. (i, xs ! i)) ` {..<length xs}"
  by (auto simp: in_set_enumerate_eq image_iff)

lemma set_all_edges:
  "set (concat (map (row_edges threshold (enumerate 0 xs)) (enumerate 0 xs))) =
     {(i, j). i < j \<and> j < length xs \<and> passes threshold (xs ! i) (xs ! j)}"
proof -
  have "set (concat (map (row_edges threshold (enumerate 0 xs)) (enumerate 0 xs))) =
          (\<Union>p \<in> set (enumerate 0 xs). set (row_edges threshold (enumerate 0 xs) p))"
    by simp
  also have "\<dots> = (\<Union>i \<in> {..<length xs}.
                      set (row_edges threshold (enumerate 0 xs) (i, xs ! i)))"
    by (simp only: enumerate_image UN_simps image_image)
  also have "\<dots> = {(i, j). i < j \<and> j < length xs \<and> passes threshold (xs ! i) (xs ! j)}"
    by (auto simp: set_row_edges)
  finally show ?thesis .
qed

lemma distinct_row_edges:
  assumes "distinct (map fst js)"
  shows "distinct (row_edges threshold js p)"
proof -
  let ?F = "filter (\<lambda>q. fst p < fst q \<and> passes threshold (snd p) (snd q)) js"
  have "distinct (map fst ?F)"
    using assms by (rule distinct_map_filter)
  then have "distinct (map (Pair (fst p)) (map fst ?F))"
    by (subst distinct_map) (simp add: inj_on_def)
  moreover have "map (Pair (fst p)) (map fst ?F) = row_edges threshold js p"
    by (simp add: row_edges_def)
  ultimately show ?thesis by simp
qed

lemma fst_row_edges: "e \<in> set (row_edges threshold js p) \<Longrightarrow> fst e = fst p"
  by (auto simp: row_edges_def)

lemma distinct_all_edges:
  "distinct (map fst js) \<Longrightarrow> distinct (map fst ps) \<Longrightarrow>
     distinct (concat (map (row_edges threshold js) ps))"
proof (induction ps)
  case Nil
  show ?case by simp
next
  case (Cons p ps)
  have disj: "set (row_edges threshold js p) \<inter>
              set (concat (map (row_edges threshold js) ps)) = {}"
  proof (rule ccontr)
    assume "\<not> ?thesis"
    then obtain e q where e: "e \<in> set (row_edges threshold js p)"
      and q: "q \<in> set ps" "e \<in> set (row_edges threshold js q)"
      by auto
    from e q have "fst p = fst q" using fst_row_edges by metis
    with q(1) Cons.prems(2) show False by (simp add: image_iff) metis
  qed
  have "distinct (row_edges threshold js p)"
    using Cons.prems(1) by (rule distinct_row_edges)
  moreover have "distinct (concat (map (row_edges threshold js) ps))"
    using Cons by simp
  ultimately show ?case using disj by simp
qed

lemma build_edges_spec:
  "\<exists>edges. build_edges n_grams threshold = Inr edges \<and> distinct edges \<and>
     set edges = {(i, j). i < j \<and> j < length n_grams \<and>
                    passes threshold (n_grams ! i) (n_grams ! j)}"
proof -
  let ?es = "concat (map (row_edges threshold (enumerate 0 n_grams)) (enumerate 0 n_grams))"
  have "build_edges n_grams threshold = Inr ?es" by (rule build_edges_eq)
  moreover have "distinct ?es" by (rule distinct_all_edges) simp_all
  moreover have "set ?es = {(i, j). i < j \<and> j < length n_grams \<and>
                    passes threshold (n_grams ! i) (n_grams ! j)}"
    by (rule set_all_edges)
  ultimately show ?thesis by blast
qed

text \<open>
  Claim C4, amended. For every sequence of shingle sets and every threshold, the two
  nested loops of \<^verbatim>\<open>add_components\<close> return, without raising, a list without
  repetitions whose elements are exactly the pairs \<open>(i, j)\<close> with \<open>i < j\<close> whose
  similarity is defined, is not zero, and is greater than or equal to the threshold.
  The comparison with the threshold is inclusive; a similarity of zero never gives an
  edge, whatever the threshold.
\<close>

theorem build_edges_edge_set:
  "\<exists>edges. build_edges n_grams threshold = Inr edges \<and> distinct edges \<and>
     set edges = {(i, j). i < j \<and> j < length n_grams \<and>
                    (\<exists>s. jaccard_similarity (n_grams ! i) (n_grams ! j) = Inr (Some s) \<and>
                         s \<noteq> 0 \<and> threshold \<le> s)}"
  using build_edges_spec [of n_grams threshold] by (simp add: passes_iff)

lemma jaccard_B_A: "jaccard_similarity (Some bigrams_B) (Some bigrams_A) = Inr (Some (3 / 5))"
  using fcard_A_B by (simp add: jaccard_similarity_defined bigrams_nonempty inf_commute sup_commute)

lemma jaccard_A_A: "jaccard_similarity (Some bigrams_A) (Some bigrams_A) = Inr (Some 1)"
  using fcard_union_pos [OF bigrams_nonempty(1), of bigrams_A]
  by (simp add: jaccard_similarity_defined bigrams_nonempty)

lemma three_docs_low: "build_edges three_docs (3 / 10) = Inr [(0, 1), (0, 2), (1, 2)]"
  by (simp add: three_docs_def build_edges_def jaccard_A_B jaccard_B_A jaccard_A_A)

lemma three_docs_high: "build_edges three_docs (7 / 10) = Inr [(0, 2)]"
  by (simp add: three_docs_def build_edges_def jaccard_A_B jaccard_B_A jaccard_A_A)

theorem build_edges_edge_set_witness:
  "build_edges three_docs (3 / 10) = Inr [(0, 1), (0, 2), (1, 2)] \<and>
   jaccard_similarity (three_docs ! 0) (three_docs ! 1) = Inr (Some (3 / 5)) \<and>
   (3 / 10 :: rat) \<le> 3 / 5"
  using build_edges_edge_set [of three_docs "3 / 10"]
  by (simp add: three_docs_low) (simp add: three_docs_def jaccard_A_B)

text \<open>
  Claim C4 as stated fails: two records with the disjoint unigram sets of \<^verbatim>\<open>'a'\<close> and
  \<^verbatim>\<open>'b'\<close> have similarity 0, which reaches the threshold 0, and the loops return no
  edge.
\<close>

theorem zero_similarity_counterexample:
  "jaccard_similarity (Some unigram_a) (Some unigram_b) = Inr (Some 0) \<and>
   (0 :: rat) \<le> 0 \<and>
   build_edges [Some unigram_a, Some unigram_b] 0 = Inr []"
proof -
  have ne: "unigram_a \<noteq> {||}" "unigram_b \<noteq> {||}" by code_simp+
  have i: "fcard (unigram_a |\<inter>| unigram_b) = 0" by code_simp
  have j: "jaccard_similarity (Some unigram_a) (Some unigram_b) = Inr (Some 0)"
    by (simp add: jaccard_similarity_defined ne i)
  show ?thesis by (simp add: j build_edges_def)
qed

text \<open>
  Claim C9. For a fixed sequence of shingle sets and thresholds
  \<open>threshold1 \<le> threshold2\<close>, both runs of the loops return an edge list, and every edge
  found at \<open>threshold2\<close> is found at \<open>threshold1\<close>.
\<close>

theorem threshold_monotone:
  assumes "threshold1 \<le> threshold2"
  shows "\<exists>edges1 edges2.
           build_edges n_grams threshold1 = Inr edges1 \<and>
           build_edges n_grams threshold2 = Inr edges2 \<and>
           set edges2 \<subseteq> set edges1"
proof -
  obtain edges1 where e1: "build_edges n_grams threshold1 = Inr edges1"
    "set edges1 = {(i, j). i < j \<and> j < length n_grams \<and>
                     passes threshold1 (n_grams ! i) (n_grams ! j)}"
    using build_edges_spec [of n_grams threshold1] by blast
  obtain edges2 where e2: "build_edges n_grams threshold2 = Inr edges2"
    "set edges2 = {(i, j). i < j \<and> j < length n_grams \<and>
                     passes threshold2 (n_grams ! i) (n_grams ! j)}"
    using build_edges_spec [of n_grams threshold2] by blast
  have "passes threshold2 g1 g2 \<Longrightarrow> passes threshold1 g1 g2" for g1 g2 :: "'a fset option"
    using assms by (auto simp: passes_iff)
  then have "set edges2 \<subseteq> set edges1" unfolding e1(2) e2(2) by blast
  with e1(1) e2(1) show ?thesis by blast
qed

theorem threshold_monotone_witness:
  "(3 / 10 :: rat) \<le> 7 / 10 \<and>
   build_edges three_docs (3 / 10) = Inr [(0, 1), (0, 2), (1, 2)] \<and>
   build_edges three_docs (7 / 10) = Inr [(0, 2)] \<and>
   set [(0 :: nat, 2 :: nat)] \<subseteq> set [(0, 1), (0, 2), (1, 2)]"
proof -
  have le: "(3 / 10 :: rat) \<le> 7 / 10" by simp
  from threshold_monotone [OF le, of three_docs] show ?thesis
    by (simp add: three_docs_low three_docs_high)
qed

section \<open>Properties of the components\<close>

lemma set_neighbours: "set (neighbours G v) = adj_rel G `` {v}"
  by (auto simp: neighbours_def adj_rel_def split: if_splits)

lemma sym_adj_rel: "sym (adj_rel G)"
  by (auto simp: adj_rel_def sym_def)

lemma bfs_grows:
  assumes "set queue \<subseteq> set seen"
    and "\<forall>u \<in> set seen - set queue. adj_rel G `` {u} \<subseteq> set seen"
  shows "set seen \<subseteq> set (bfs G seen queue) \<and>
         adj_rel G `` set (bfs G seen queue) \<subseteq> set (bfs G seen queue)"
  using assms
proof (induction G seen queue rule: bfs.induct)
  case (1 G seen)
  then show ?case by (auto simp: bfs.simps)
next
  case (2 G seen v queue)
  define new where "new = remdups (filter (\<lambda>w. w \<notin> set seen) (neighbours G v))"
  have a: "set (queue @ new) \<subseteq> set (seen @ new)"
    using "2.prems"(1) by auto
  have nv: "adj_rel G `` {v} \<subseteq> set (seen @ new)"
    by (auto simp: new_def set_neighbours [symmetric])
  have b: "\<forall>u \<in> set (seen @ new) - set (queue @ new). adj_rel G `` {u} \<subseteq> set (seen @ new)"
  proof
    fix u assume u: "u \<in> set (seen @ new) - set (queue @ new)"
    show "adj_rel G `` {u} \<subseteq> set (seen @ new)"
    proof (cases "u = v")
      case True
      with nv show ?thesis by simp
    next
      case False
      with u have "u \<in> set seen - set (v # queue)" by auto
      with "2.prems"(2) have "adj_rel G `` {u} \<subseteq> set seen" by blast
      then show ?thesis by auto
    qed
  qed
  have ih: "set (seen @ new) \<subseteq> set (bfs G (seen @ new) (queue @ new)) \<and>
            adj_rel G `` set (bfs G (seen @ new) (queue @ new))
              \<subseteq> set (bfs G (seen @ new) (queue @ new))"
    using "2.IH" [OF new_def a b] .
  have "bfs G seen (v # queue) = bfs G (seen @ new) (queue @ new)"
    by (simp add: bfs.simps new_def Let_def)
  with ih show ?case by auto
qed

lemma bfs_within:
  assumes "set seen \<subseteq> C" and "set queue \<subseteq> C" and "adj_rel G `` C \<subseteq> C"
  shows "set (bfs G seen queue) \<subseteq> C"
  using assms
proof (induction G seen queue rule: bfs.induct)
  case (1 G seen)
  then show ?case by (simp add: bfs.simps)
next
  case (2 G seen v queue)
  define new where "new = remdups (filter (\<lambda>w. w \<notin> set seen) (neighbours G v))"
  have "set new \<subseteq> adj_rel G `` {v}"
    by (auto simp: new_def set_neighbours [symmetric])
  also have "\<dots> \<subseteq> C" using "2.prems"(2,3) by auto
  finally have n: "set new \<subseteq> C" .
  have "set (bfs G (seen @ new) (queue @ new)) \<subseteq> C"
    using "2.IH" [OF new_def _ _ "2.prems"(3)] "2.prems"(1,2) n by simp
  moreover have "bfs G seen (v # queue) = bfs G (seen @ new) (queue @ new)"
    by (simp add: bfs.simps new_def Let_def)
  ultimately show ?case by simp
qed

lemma bfs_component: "set (bfs G [v] [v]) = (adj_rel G)\<^sup>* `` {v}"
proof
  show "set (bfs G [v] [v]) \<subseteq> (adj_rel G)\<^sup>* `` {v}"
  proof (rule bfs_within)
    show "adj_rel G `` (adj_rel G)\<^sup>* `` {v} \<subseteq> (adj_rel G)\<^sup>* `` {v}"
      by (auto intro: rtrancl_into_rtrancl)
  qed simp_all
next
  have g: "set [v] \<subseteq> set (bfs G [v] [v]) \<and>
           adj_rel G `` set (bfs G [v] [v]) \<subseteq> set (bfs G [v] [v])"
    by (rule bfs_grows) simp_all
  show "(adj_rel G)\<^sup>* `` {v} \<subseteq> set (bfs G [v] [v])"
  proof
    fix w assume "w \<in> (adj_rel G)\<^sup>* `` {v}"
    then have "(v, w) \<in> (adj_rel G)\<^sup>*" by simp
    then show "w \<in> set (bfs G [v] [v])"
    proof (induction rule: rtrancl_induct)
      case base
      with g show ?case by simp
    next
      case (step y z)
      with g show ?case by blast
    qed
  qed
qed

lemma closed_rtrancl:
  assumes "R `` S \<subseteq> S" and "(u, w) \<in> R\<^sup>*" and "u \<in> S"
  shows "w \<in> S"
  using assms(2,3,1) by (induction rule: rtrancl_induct) auto

lemma components_from_spec:
  assumes "adj_rel G `` set seen \<subseteq> set seen"
  shows "(\<forall>c \<in> set (components_from G seen ns).
            (\<exists>v \<in> set ns. set c = (adj_rel G)\<^sup>* `` {v}) \<and> set c \<inter> set seen = {}) \<and>
         disjoint_lists (components_from G seen ns) \<and>
         set ns \<subseteq> set seen \<union> \<Union> (set ` set (components_from G seen ns))"
  using assms
proof (induction ns arbitrary: seen)
  case Nil
  show ?case by (simp add: disjoint_lists_def)
next
  case (Cons v vs)
  show ?case
  proof (cases "v \<in> set seen")
    case True
    with Cons.IH [OF Cons.prems] show ?thesis by auto
  next
    case False
    define c where "c = bfs G [v] [v]"
    have c: "set c = (adj_rel G)\<^sup>* `` {v}" unfolding c_def by (rule bfs_component)
    have vc: "v \<in> set c" by (simp add: c)
    have cs: "set c \<inter> set seen = {}"
    proof (rule ccontr)
      assume "set c \<inter> set seen \<noteq> {}"
      then obtain w where w: "(v, w) \<in> (adj_rel G)\<^sup>*" "w \<in> set seen"
        using c by auto
      from w(1) have "(w, v) \<in> (adj_rel G)\<^sup>*"
        using sym_adj_rel [of G] by (meson sym_rtrancl symD)
      then have "v \<in> set seen" using Cons.prems w(2) closed_rtrancl by metis
      with False show False by simp
    qed
    have closed': "adj_rel G `` set (seen @ c) \<subseteq> set (seen @ c)"
      using Cons.prems c by (auto intro: rtrancl_into_rtrancl)
    note ih = Cons.IH [OF closed']
    have eq: "components_from G seen (v # vs) = c # components_from G (seen @ c) vs"
      using False by (simp add: c_def Let_def)
    have 1: "\<forall>d \<in> set (c # components_from G (seen @ c) vs).
               (\<exists>u \<in> set (v # vs). set d = (adj_rel G)\<^sup>* `` {u}) \<and> set d \<inter> set seen = {}"
      using ih c cs by auto
    have 2: "disjoint_lists (c # components_from G (seen @ c) vs)"
      using ih by (auto simp: disjoint_lists_def)
    have 3: "set (v # vs) \<subseteq> set seen \<union> \<Union> (set ` set (c # components_from G (seen @ c) vs))"
      using ih vc by auto
    from 1 2 3 show ?thesis unfolding eq by blast
  qed
qed

lemma fold_add_edge:
  "edge_list (fold add_edge es G) = edge_list G @ es \<and>
   set (nodes (fold add_edge es G)) = set (nodes G) \<union> fst ` set es \<union> snd ` set es"
  by (induction es arbitrary: G) (auto simp: add_edge_def add_node_def)

lemma add_edges_from_empty:
  "edge_list (add_edges_from empty_graph es) = es"
  "set (nodes (add_edges_from empty_graph es)) = fst ` set es \<union> snd ` set es"
  using fold_add_edge [of es empty_graph] by (simp_all add: add_edges_from_def empty_graph_def)

lemma connected_components_spec:
  "(\<forall>c \<in> set (connected_components G). \<exists>v \<in> set (nodes G). set c = (adj_rel G)\<^sup>* `` {v}) \<and>
   disjoint_lists (connected_components G) \<and>
   set (nodes G) \<subseteq> \<Union> (set ` set (connected_components G))"
  using components_from_spec [of G "[]" "nodes G"] by (simp add: connected_components_def)

section \<open>Properties of the frame operations\<close>

lemma loc_set_in_range:
  "c \<in> set (columns df) \<Longrightarrow> j < length (rows df) \<Longrightarrow>
     loc_set df j c v = df\<lparr>rows := (rows df)[j := (rows df ! j)(c \<mapsto> v)]\<rparr>"
  by (simp add: loc_set_def)

lemma fold_loc_set:
  assumes "c \<in> set (columns df)" and "\<forall>j \<in> set js. j < length (rows df)"
  shows "columns (fold (\<lambda>j d. loc_set d j c v) js df) = columns df \<and>
         length (rows (fold (\<lambda>j d. loc_set d j c v) js df)) = length (rows df) \<and>
         (\<forall>k < length (rows df).
            rows (fold (\<lambda>j d. loc_set d j c v) js df) ! k =
              (if k \<in> set js then (rows df ! k)(c \<mapsto> v) else rows df ! k))"
  using assms
proof (induction js arbitrary: df)
  case Nil
  show ?case by simp
next
  case (Cons j js)
  define df1 where "df1 = df\<lparr>rows := (rows df)[j := (rows df ! j)(c \<mapsto> v)]\<rparr>"
  have l: "loc_set df j c v = df1"
    using Cons.prems by (simp add: loc_set_in_range df1_def)
  have c1: "c \<in> set (columns df1)" using Cons.prems by (simp add: df1_def)
  have b1: "\<forall>j \<in> set js. j < length (rows df1)" using Cons.prems by (simp add: df1_def)
  note ih = Cons.IH [OF c1 b1]
  have len: "length (rows df1) = length (rows df)" by (simp add: df1_def)
  have col: "columns df1 = columns df" by (simp add: df1_def)
  have r: "\<forall>k < length (rows df). rows df1 ! k =
             (if k = j then (rows df ! k)(c \<mapsto> v) else rows df ! k)"
    by (simp add: df1_def)
  have "\<forall>k < length (rows df).
          rows (fold (\<lambda>j d. loc_set d j c v) js df1) ! k =
            (if k \<in> set (j # js) then (rows df ! k)(c \<mapsto> v) else rows df ! k)"
  proof (intro allI impI)
    fix k assume k: "k < length (rows df)"
    with ih len have "rows (fold (\<lambda>j d. loc_set d j c v) js df1) ! k =
        (if k \<in> set js then (rows df1 ! k)(c \<mapsto> v) else rows df1 ! k)" by simp
    with r k show "rows (fold (\<lambda>j d. loc_set d j c v) js df1) ! k =
        (if k \<in> set (j # js) then (rows df ! k)(c \<mapsto> v) else rows df ! k)"
      by simp
  qed
  with ih len col l show ?case by simp
qed

lemma disjoint_lists_Cons:
  "disjoint_lists (c # cs) \<longleftrightarrow> (\<forall>d \<in> set cs. set c \<inter> set d = {}) \<and> disjoint_lists cs"
  by (simp add: disjoint_lists_def)

lemma disjoint_lists_unique:
  assumes "disjoint_lists cs" and "m < length cs" and "m' < length cs"
    and "k \<in> set (cs ! m)" and "k \<in> set (cs ! m')"
  shows "m = m'"
proof (rule ccontr)
  assume ne: "m \<noteq> m'"
  have d: "\<And>a b. a < b \<Longrightarrow> b < length cs \<Longrightarrow> set (cs ! a) \<inter> set (cs ! b) = {}"
    using assms(1) by (simp add: disjoint_lists_def sorted_wrt_iff_nth_less)
  from ne consider "m < m'" | "m' < m" by linarith
  then show False
  proof cases
    case 1
    from d [OF 1 assms(3)] assms(4,5) show False by blast
  next
    case 2
    from d [OF 2 assms(2)] assms(4,5) show False by blast
  qed
qed

lemma assign_components_spec:
  assumes "''component'' \<in> set (columns df)"
    and "\<forall>c \<in> set cs. \<forall>j \<in> set c. j < length (rows df)"
    and "disjoint_lists cs"
  shows "columns (assign_components i cs df) = columns df \<and>
         length (rows (assign_components i cs df)) = length (rows df) \<and>
         (\<forall>k < length (rows df).
            (k \<notin> \<Union> (set ` set cs) \<longrightarrow> rows (assign_components i cs df) ! k = rows df ! k) \<and>
            (\<forall>m < length cs. k \<in> set (cs ! m) \<longrightarrow>
               rows (assign_components i cs df) ! k =
                 (rows df ! k)(''component'' \<mapsto> Num (int (i + m)))))"
  using assms
proof (induction cs arbitrary: i df)
  case Nil
  show ?case by simp
next
  case (Cons c cs)
  define df1 where "df1 = fold (\<lambda>j d. loc_set d j ''component'' (Num (int i))) c df"
  have f: "columns df1 = columns df \<and> length (rows df1) = length (rows df) \<and>
           (\<forall>k < length (rows df). rows df1 ! k =
              (if k \<in> set c then (rows df ! k)(''component'' \<mapsto> Num (int i)) else rows df ! k))"
    unfolding df1_def using Cons.prems(1,2) by (intro fold_loc_set) simp_all
  have dis: "\<forall>d \<in> set cs. set c \<inter> set d = {}" and dl: "disjoint_lists cs"
    using Cons.prems(3) by (simp_all add: disjoint_lists_Cons)
  have c1: "''component'' \<in> set (columns df1)" using f Cons.prems(1) by simp
  have b1: "\<forall>c \<in> set cs. \<forall>j \<in> set c. j < length (rows df1)" using f Cons.prems(2) by simp
  note ih = Cons.IH [OF c1 b1 dl, of "Suc i"]
  let ?res = "assign_components (Suc i) cs df1"
  from f have len1: "length (rows df1) = length (rows df)" and col1: "columns df1 = columns df"
    by blast+
  from f have fc: "\<And>k. k < length (rows df) \<Longrightarrow> k \<in> set c \<Longrightarrow>
      rows df1 ! k = (rows df ! k)(''component'' \<mapsto> Num (int i))"
    and fn: "\<And>k. k < length (rows df) \<Longrightarrow> k \<notin> set c \<Longrightarrow> rows df1 ! k = rows df ! k"
    by simp_all
  from ih have ih_col: "columns ?res = columns df1" and ih_len: "length (rows ?res) = length (rows df1)"
    by blast+
  from ih len1 have ih_out: "\<And>k. k < length (rows df) \<Longrightarrow> k \<notin> \<Union> (set ` set cs) \<Longrightarrow>
      rows ?res ! k = rows df1 ! k"
    by metis
  from ih len1 have ih_in: "\<And>k m. k < length (rows df) \<Longrightarrow> m < length cs \<Longrightarrow>
      k \<in> set (cs ! m) \<Longrightarrow>
      rows ?res ! k = (rows df1 ! k)(''component'' \<mapsto> Num (int (Suc i + m)))"
    by metis
  have eq: "assign_components i (c # cs) df = ?res"
    by (simp add: df1_def)
  have "\<forall>k < length (rows df).
          (k \<notin> \<Union> (set ` set (c # cs)) \<longrightarrow> rows ?res ! k = rows df ! k) \<and>
          (\<forall>m < length (c # cs). k \<in> set ((c # cs) ! m) \<longrightarrow>
             rows ?res ! k = (rows df ! k)(''component'' \<mapsto> Num (int (i + m))))"
  proof (intro allI impI conjI)
    fix k assume k: "k < length (rows df)" and "k \<notin> \<Union> (set ` set (c # cs))"
    then have "k \<notin> set c" "k \<notin> \<Union> (set ` set cs)" by auto
    with ih_out [OF k] fn [OF k] show "rows ?res ! k = rows df ! k" by simp
  next
    fix k m assume k: "k < length (rows df)" and m: "m < length (c # cs)"
      and km: "k \<in> set ((c # cs) ! m)"
    show "rows ?res ! k = (rows df ! k)(''component'' \<mapsto> Num (int (i + m)))"
    proof (cases m)
      case 0
      with km have kc: "k \<in> set c" by simp
      with dis have "k \<notin> \<Union> (set ` set cs)" by auto
      then have "rows ?res ! k = rows df1 ! k" using ih_out [OF k] by simp
      also have "\<dots> = (rows df ! k)(''component'' \<mapsto> Num (int i))" using fc [OF k kc] .
      finally show ?thesis using 0 by simp
    next
      case (Suc m')
      with m km have m': "m' < length cs" "k \<in> set (cs ! m')" by simp_all
      then have "cs ! m' \<in> set cs" by simp
      with dis m'(2) have "k \<notin> set c" by blast
      then have r: "rows df1 ! k = rows df ! k" using fn [OF k] by simp
      have "rows ?res ! k = (rows df1 ! k)(''component'' \<mapsto> Num (int (Suc i + m')))"
        using ih_in [OF k m'] .
      also have "\<dots> = (rows df ! k)(''component'' \<mapsto> Num (int (i + m)))"
        unfolding r Suc by simp
      finally show ?thesis .
    qed
  qed
  then show ?case unfolding eq using ih_col ih_len len1 col1 by simp
qed

lemma set_column_props:
  "length (rows (set_column df c v)) = length (rows df)"
  "c \<in> set (columns (set_column df c v))"
  "set (columns df) \<subseteq> set (columns (set_column df c v))"
  "columns (set_column df c v) = columns df @ filter (\<lambda>x. x \<notin> set (columns df)) [c]"
  "k < length (rows df) \<Longrightarrow> rows (set_column df c v) ! k = (rows df ! k)(c \<mapsto> v)"
  by (auto simp: set_column_def)

lemma extract_loop_spec:
  assumes "extract_loop textract ps df = Inr df'"
    and "''text_attachment'' \<in> set (columns df)"
    and "\<forall>p \<in> set ps. fst p < length (rows df)"
  shows "columns df' = columns df \<and> length (rows df') = length (rows df) \<and>
         (\<forall>k < length (rows df). \<forall>c. c \<noteq> ''text_attachment'' \<longrightarrow>
            (rows df' ! k) c = (rows df ! k) c)"
  using assms
proof (induction ps arbitrary: df)
  case Nil
  then show ?case by simp
next
  case (Cons p ps)
  obtain i a where p: "p = (i, a)" by (cases p)
  show ?case
  proof (cases "notna a \<and> a \<noteq> Str []")
    case False
    with Cons.prems p have "extract_loop textract ps df = Inr df'" by auto
    from Cons.IH [OF this Cons.prems(2)] Cons.prems(3) show ?thesis by simp
  next
    case True
    with Cons.prems(1) p obtain t where t: "textract a = Inr t"
      and r: "extract_loop textract ps (loc_set df i ''text_attachment'' t) = Inr df'"
      by (auto split: sum.splits)
    define df1 where "df1 = loc_set df i ''text_attachment'' t"
    have i: "i < length (rows df)" using Cons.prems(3) p by simp
    have d: "df1 = df\<lparr>rows := (rows df)[i := (rows df ! i)(''text_attachment'' \<mapsto> t)]\<rparr>"
      unfolding df1_def using Cons.prems(2) i by (rule loc_set_in_range)
    have c1: "''text_attachment'' \<in> set (columns df1)" using Cons.prems(2) by (simp add: d)
    have b1: "\<forall>p \<in> set ps. fst p < length (rows df1)" using Cons.prems(3) by (simp add: d)
    from Cons.IH [OF r [folded df1_def] c1 b1]
    have ih: "columns df' = columns df1" "length (rows df') = length (rows df1)"
      "\<And>k c. k < length (rows df1) \<Longrightarrow> c \<noteq> ''text_attachment'' \<Longrightarrow>
         (rows df' ! k) c = (rows df1 ! k) c"
      by blast+
    have "\<And>k c. k < length (rows df) \<Longrightarrow> c \<noteq> ''text_attachment'' \<Longrightarrow>
         (rows df1 ! k) c = (rows df ! k) c"
      using i by (auto simp: d nth_list_update)
    moreover have "columns df1 = columns df" "length (rows df1) = length (rows df)"
      by (simp_all add: d)
    ultimately show ?thesis using ih by simp
  qed
qed

lemma extract_text_spec:
  assumes "extract_text textract df = Inr df'"
  shows "columns df' = columns df @ filter (\<lambda>x. x \<notin> set (columns df)) [''text_attachment''] \<and>
         length (rows df') = length (rows df) \<and>
         (\<forall>k < length (rows df). \<forall>c. c \<noteq> ''text_attachment'' \<longrightarrow>
            (rows df' ! k) c = (rows df ! k) c)"
proof -
  define df1 where "df1 = set_column df ''text_attachment'' NA"
  from assms obtain att where att: "column df1 ''attachment'' = Inr att"
    and l: "extract_loop textract (enumerate 0 att) df1 = Inr df'"
    by (auto simp: extract_text_def Let_def df1_def split: sum.splits)
  from att have la: "length att = length (rows df1)"
    by (auto simp: column_def split: if_splits)
  have b: "\<forall>p \<in> set (enumerate 0 att). fst p < length (rows df1)"
    using la by (auto simp: in_set_enumerate_eq)
  have c: "''text_attachment'' \<in> set (columns df1)"
    by (simp add: df1_def set_column_props)
  from extract_loop_spec [OF l c b]
  have e: "columns df' = columns df1" "length (rows df') = length (rows df1)"
    "\<And>k c. k < length (rows df1) \<Longrightarrow> c \<noteq> ''text_attachment'' \<Longrightarrow>
       (rows df' ! k) c = (rows df1 ! k) c"
    by blast+
  have "\<And>k c. k < length (rows df) \<Longrightarrow> c \<noteq> ''text_attachment'' \<Longrightarrow>
       (rows df1 ! k) c = (rows df ! k) c"
    by (simp add: df1_def set_column_props)
  with e show ?thesis by (simp add: df1_def set_column_props)
qed

lemma prepare_frame_spec:
  assumes "prepare_frame textract df = Inr df1"
  shows "columns df1 = columns df @
           filter (\<lambda>x. x \<notin> set (columns df)) [''component'', ''text_attachment''] \<and>
         length (rows df1) = length (rows df) \<and>
         (\<forall>k < length (rows df). (rows df1 ! k) ''component'' = Some NA) \<and>
         (\<forall>k < length (rows df). \<forall>c. c \<noteq> ''component'' \<longrightarrow>
            (c \<noteq> ''text_attachment'' \<or> ''text_attachment'' \<in> set (columns df)) \<longrightarrow>
            (rows df1 ! k) c = (rows df ! k) c)"
proof -
  define df0 where "df0 = set_column df ''component'' NA"
  have c0: "columns df0 = columns df @ filter (\<lambda>x. x \<notin> set (columns df)) [''component'']"
    and l0: "length (rows df0) = length (rows df)"
    and r0: "\<And>k. k < length (rows df) \<Longrightarrow> rows df0 ! k = (rows df ! k)(''component'' \<mapsto> NA)"
    by (simp_all add: df0_def set_column_props)
  have t0: "''text_attachment'' \<in> set (columns df0) \<longleftrightarrow> ''text_attachment'' \<in> set (columns df)"
    by (auto simp: c0)
  show ?thesis
  proof (cases "''text_attachment'' \<in> set (columns df)")
    case True
    with assms t0 have "df1 = df0" by (simp add: prepare_frame_def Let_def df0_def)
    with True c0 l0 r0 show ?thesis by auto
  next
    case False
    with assms t0 have "extract_text textract df0 = Inr df1"
      by (simp add: prepare_frame_def Let_def df0_def)
    from extract_text_spec [OF this]
    have e: "columns df1 = columns df0 @
               filter (\<lambda>x. x \<notin> set (columns df0)) [''text_attachment'']"
      "length (rows df1) = length (rows df0)"
      "\<And>k c. k < length (rows df0) \<Longrightarrow> c \<noteq> ''text_attachment'' \<Longrightarrow>
         (rows df1 ! k) c = (rows df0 ! k) c"
      by blast+
    have cols: "columns df1 = columns df @
           filter (\<lambda>x. x \<notin> set (columns df)) [''component'', ''text_attachment'']"
      using e(1) c0 t0 False by auto
    have comp: "\<forall>k < length (rows df). (rows df1 ! k) ''component'' = Some NA"
      using e(3) [of _ "''component''"] l0 r0 by simp
    have rest: "\<forall>k < length (rows df). \<forall>c. c \<noteq> ''component'' \<longrightarrow>
            (c \<noteq> ''text_attachment'' \<or> ''text_attachment'' \<in> set (columns df)) \<longrightarrow>
            (rows df1 ! k) c = (rows df ! k) c"
      using e(3) l0 r0 False by simp
    from cols comp rest e(2) l0 show ?thesis by simp
  qed
qed

lemma map_result_length: "map_result f xs = Inr ys \<Longrightarrow> length ys = length xs"
  by (induction xs arbitrary: ys) (auto split: sum.splits)

lemma frame_ngrams_length:
  "frame_ngrams df n = Inr n_grams \<Longrightarrow> length n_grams = length (rows df)"
  by (auto simp: frame_ngrams_def column_def dest!: map_result_length split: sum.splits if_splits)

lemma rtrancl_endpoints:
  "(v, w) \<in> (adj_rel G)\<^sup>* \<Longrightarrow> v \<in> endpoints G \<Longrightarrow> w \<in> endpoints G"
proof (induction rule: rtrancl_induct)
  case base
  then show ?case .
next
  case (step y z)
  from step(2) show ?case by (force simp: adj_rel_def endpoints_def)
qed

lemma write_components_spec:
  assumes comp: "''component'' \<in> set (columns df)"
    and bound: "linked edges \<subseteq> {..<length (rows df)}"
  shows "\<exists>label.
           columns (write_components edges df) = columns df \<and>
           length (rows (write_components edges df)) = length (rows df) \<and>
           (\<forall>k < length (rows df). k \<notin> linked edges \<longrightarrow>
              rows (write_components edges df) ! k = rows df ! k) \<and>
           (\<forall>k \<in> linked edges.
              rows (write_components edges df) ! k =
                (rows df ! k)(''component'' \<mapsto> Num (int (label k)))) \<and>
           (\<forall>j \<in> linked edges. \<forall>k \<in> linked edges.
              label j = label k \<longleftrightarrow> (j, k) \<in> connected edges)"
proof -
  define G where "G = add_edges_from empty_graph edges"
  define cs where "cs = connected_components G"
  have el: "edge_list G = edges" and ns: "set (nodes G) = linked edges"
    by (simp_all add: G_def add_edges_from_empty linked_def)
  have ep: "endpoints G = linked edges" by (simp add: endpoints_def el linked_def)
  have R: "(adj_rel G)\<^sup>* = connected edges" by (simp add: adj_rel_def el connected_def)
  from connected_components_spec [of G]
  have cls: "\<And>c. c \<in> set cs \<Longrightarrow> \<exists>v \<in> linked edges. set c = connected edges `` {v}"
    and dl: "disjoint_lists cs"
    and cover: "linked edges \<subseteq> \<Union> (set ` set cs)"
    unfolding cs_def [symmetric] ns R by blast+
  have inside: "\<And>c. c \<in> set cs \<Longrightarrow> set c \<subseteq> linked edges"
  proof -
    fix c assume "c \<in> set cs"
    then obtain v where v: "v \<in> linked edges" "set c = connected edges `` {v}"
      using cls by blast
    show "set c \<subseteq> linked edges"
    proof
      fix w assume "w \<in> set c"
      with v(2) have "(v, w) \<in> (adj_rel G)\<^sup>*" by (simp add: R)
      from rtrancl_endpoints [OF this] v(1) show "w \<in> linked edges" by (simp add: ep)
    qed
  qed
  have un: "\<Union> (set ` set cs) = linked edges" using cover inside by blast
  have b: "\<forall>c \<in> set cs. \<forall>j \<in> set c. j < length (rows df)"
    using inside bound by blast
  have w: "write_components edges df = assign_components 0 cs df"
    by (simp add: write_components_def Let_def G_def cs_def)
  from assign_components_spec [OF comp b dl, of 0]
  have a1: "columns (assign_components 0 cs df) = columns df"
    and a2: "length (rows (assign_components 0 cs df)) = length (rows df)"
    and a3: "\<And>k. k < length (rows df) \<Longrightarrow> k \<notin> \<Union> (set ` set cs) \<Longrightarrow>
               rows (assign_components 0 cs df) ! k = rows df ! k"
    and a4: "\<And>k m. k < length (rows df) \<Longrightarrow> m < length cs \<Longrightarrow> k \<in> set (cs ! m) \<Longrightarrow>
               rows (assign_components 0 cs df) ! k =
                 (rows df ! k)(''component'' \<mapsto> Num (int (0 + m)))"
    by blast+
  define label where "label k = (SOME m. m < length cs \<and> k \<in> set (cs ! m))" for k
  have lab: "label k < length cs \<and> k \<in> set (cs ! label k)" if "k \<in> linked edges" for k
  proof -
    from that un obtain c where "c \<in> set cs" "k \<in> set c" by blast
    then obtain m where "m < length cs \<and> k \<in> set (cs ! m)" by (metis in_set_conv_nth)
    then show ?thesis unfolding label_def by (rule someI)
  qed
  have same: "label j = label k \<longleftrightarrow> (j, k) \<in> connected edges"
    if j: "j \<in> linked edges" and k: "k \<in> linked edges" for j k
  proof
    assume e: "label j = label k"
    from lab [OF j] have "cs ! label j \<in> set cs" by simp
    then obtain v where v: "set (cs ! label j) = connected edges `` {v}" using cls by blast
    from lab [OF j] lab [OF k] e v have "(v, j) \<in> connected edges" "(v, k) \<in> connected edges"
      by auto
    moreover have "sym (connected edges)"
      unfolding R [symmetric] using sym_adj_rel by (rule sym_rtrancl)
    ultimately have "(j, v) \<in> connected edges" by (meson symD)
    then show "(j, k) \<in> connected edges"
      using \<open>(v, k) \<in> connected edges\<close> unfolding connected_def by (rule rtrancl_trans)
  next
    assume c: "(j, k) \<in> connected edges"
    from lab [OF j] have "cs ! label j \<in> set cs" by simp
    then obtain v where v: "set (cs ! label j) = connected edges `` {v}" using cls by blast
    with lab [OF j] have "(v, j) \<in> connected edges" by auto
    then have "(v, k) \<in> connected edges"
      using c unfolding connected_def by (rule rtrancl_trans)
    with v have "k \<in> set (cs ! label j)" by simp
    with disjoint_lists_unique [OF dl] lab [OF j] lab [OF k] show "label j = label k"
      by metis
  qed
  have "\<forall>k \<in> linked edges.
          rows (assign_components 0 cs df) ! k =
            (rows df ! k)(''component'' \<mapsto> Num (int (label k)))"
  proof
    fix k assume k: "k \<in> linked edges"
    with bound have "k < length (rows df)" by auto
    from a4 [OF this] lab [OF k] show "rows (assign_components 0 cs df) ! k =
            (rows df ! k)(''component'' \<mapsto> Num (int (label k)))" by simp
  qed
  moreover have "\<forall>k < length (rows df). k \<notin> linked edges \<longrightarrow>
              rows (assign_components 0 cs df) ! k = rows df ! k"
    using a3 un by simp
  ultimately show ?thesis unfolding w using a1 a2 same by blast
qed

lemma edges_of_build:
  assumes "build_edges n_grams threshold = Inr edges"
  shows "linked edges \<subseteq> {..<length n_grams} \<and>
         (\<forall>j < length n_grams. not_set (n_grams ! j) \<longrightarrow> j \<notin> linked edges)"
proof -
  from build_edges_spec [of n_grams threshold] assms
  have s: "set edges = {(i, j). i < j \<and> j < length n_grams \<and>
                    passes threshold (n_grams ! i) (n_grams ! j)}" by auto
  have p: "passes threshold g1 g2 \<Longrightarrow> \<not> not_set g1 \<and> \<not> not_set g2"
    for g1 g2 :: "'a fset option"
    by (auto simp: passes_iff jaccard_similarity_undefined)
  have 1: "linked edges \<subseteq> {..<length n_grams}"
    unfolding linked_def s by auto
  have 2: "\<forall>j < length n_grams. not_set (n_grams ! j) \<longrightarrow> j \<notin> linked edges"
    unfolding linked_def s using p by force
  from 1 2 show ?thesis ..
qed

lemma add_components_spec:
  assumes "add_components textract df n threshold = Inr df'"
  shows "\<exists>df1 n_grams edges label.
           prepare_frame textract df = Inr df1 \<and>
           frame_ngrams df1 n = Inr n_grams \<and>
           build_edges n_grams threshold = Inr edges \<and>
           length n_grams = length (rows df) \<and>
           linked edges \<subseteq> {..<length (rows df)} \<and>
           (\<forall>j < length (rows df). not_set (n_grams ! j) \<longrightarrow> j \<notin> linked edges) \<and>
           columns df' = columns df1 \<and>
           length (rows df') = length (rows df) \<and>
           (\<forall>k < length (rows df). k \<notin> linked edges \<longrightarrow> rows df' ! k = rows df1 ! k) \<and>
           (\<forall>k \<in> linked edges.
              rows df' ! k = (rows df1 ! k)(''component'' \<mapsto> Num (int (label k)))) \<and>
           (\<forall>j \<in> linked edges. \<forall>k \<in> linked edges.
              label j = label k \<longleftrightarrow> (j, k) \<in> connected edges)"
proof -
  from assms obtain df1 n_grams edges where
    p: "prepare_frame textract df = Inr df1" and
    f: "frame_ngrams df1 n = Inr n_grams" and
    b: "build_edges n_grams threshold = Inr edges" and
    w: "df' = write_components edges df1"
    by (auto simp: add_components_def split: sum.splits)
  from prepare_frame_spec [OF p]
  have c1: "''component'' \<in> set (columns df1)" and l1: "length (rows df1) = length (rows df)"
    by auto
  have ln: "length n_grams = length (rows df)"
    using frame_ngrams_length [OF f] l1 by simp
  from edges_of_build [OF b] ln
  have e1: "linked edges \<subseteq> {..<length (rows df)}"
    and e2: "\<forall>j < length (rows df). not_set (n_grams ! j) \<longrightarrow> j \<notin> linked edges"
    by simp_all
  from e1 l1 have "linked edges \<subseteq> {..<length (rows df1)}" by simp
  from write_components_spec [OF c1 this] obtain label where
    "columns (write_components edges df1) = columns df1"
    "length (rows (write_components edges df1)) = length (rows df1)"
    "\<forall>k < length (rows df1). k \<notin> linked edges \<longrightarrow>
        rows (write_components edges df1) ! k = rows df1 ! k"
    "\<forall>k \<in> linked edges. rows (write_components edges df1) ! k =
        (rows df1 ! k)(''component'' \<mapsto> Num (int (label k)))"
    "\<forall>j \<in> linked edges. \<forall>k \<in> linked edges.
        label j = label k \<longleftrightarrow> (j, k) \<in> connected edges"
    by blast
  with p f b ln e1 e2 l1 show ?thesis unfolding w by auto
qed

section \<open>The clustering pass on the example frames\<close>

lemma docs_prepare:
  "prepare_frame no_textract docs_frame =
     Inr \<lparr>columns = [''url'', ''text'', ''text_attachment'', ''component''],
          rows = [[''url'' \<mapsto> Str ''u1'', ''text'' \<mapsto> Str ''the quick brown fox jumps'',
               ''text_attachment'' \<mapsto> NA, ''component'' \<mapsto> NA],
              [''url'' \<mapsto> Str ''u2'', ''text'' \<mapsto> Str [], ''text_attachment'' \<mapsto> NA,
               ''component'' \<mapsto> NA],
              [''url'' \<mapsto> Str ''u3'', ''text'' \<mapsto> Str ''see attachment'',
               ''text_attachment'' \<mapsto> Str ''the quick brown fox leaps'',
               ''component'' \<mapsto> NA]]\<rparr>"
  by (simp add: prepare_frame_def docs_frame_def set_column_def)

lemma docs_ngrams:
  "frame_ngrams \<lparr>columns = [''url'', ''text'', ''text_attachment'', ''component''],
          rows = [[''url'' \<mapsto> Str ''u1'', ''text'' \<mapsto> Str ''the quick brown fox jumps'',
               ''text_attachment'' \<mapsto> NA, ''component'' \<mapsto> NA],
              [''url'' \<mapsto> Str ''u2'', ''text'' \<mapsto> Str [], ''text_attachment'' \<mapsto> NA,
               ''component'' \<mapsto> NA],
              [''url'' \<mapsto> Str ''u3'', ''text'' \<mapsto> Str ''see attachment'',
               ''text_attachment'' \<mapsto> Str ''the quick brown fox leaps'',
               ''component'' \<mapsto> NA]]\<rparr> 2 =
     Inr [Some bigrams_A, None, Some bigrams_B]"
  by (simp add: frame_ngrams_def column_def get_ngrams_empty shingles_A shingles_B)

lemma docs_edges:
  "build_edges [Some bigrams_A, None, Some bigrams_B] (3 / 10) = Inr [(0, 2)]"
  by (simp add: build_edges_def jaccard_A_B jaccard_similarity_undefined)

lemma docs_components:
  "connected_components (add_edges_from empty_graph [(0, 2)]) = [[0, 2]]"
  by (simp add: connected_components_def add_edges_from_def empty_graph_def add_edge_def
      add_node_def bfs.simps neighbours_def)

lemma docs_run: "add_components no_textract docs_frame 2 (3 / 10) = Inr docs_frame_out"
  by (simp add: add_components_def docs_prepare docs_ngrams docs_edges write_components_def
      docs_components loc_set_def docs_frame_out_def)

section \<open>Properties of the clustering pass\<close>

text \<open>
  Claim C1, amended. When \<^verbatim>\<open>add_components\<close> returns, the frame has as many rows as
  before, and with the shingles and the edges that the call computed: every edge joins
  two rows of the frame; a record without shingles is on no edge; a record that is on no
  edge keeps the component \<^verbatim>\<open>None\<close>, it gets no number; a record that is on an edge
  gets one component number; and two records that are on edges have the same component
  number if and only if a path of edges connects them.
\<close>

theorem add_components_clusters:
  assumes "add_components textract df n threshold = Inr df'"
  shows "\<exists>df1 n_grams edges.
           prepare_frame textract df = Inr df1 \<and>
           frame_ngrams df1 n = Inr n_grams \<and>
           build_edges n_grams threshold = Inr edges \<and>
           length n_grams = length (rows df) \<and>
           length (rows df') = length (rows df) \<and>
           linked edges \<subseteq> {..<length (rows df)} \<and>
           (\<forall>j < length (rows df). not_set (n_grams ! j) \<longrightarrow> j \<notin> linked edges) \<and>
           (\<forall>j < length (rows df). j \<notin> linked edges \<longrightarrow> component_of df' j = NA) \<and>
           (\<forall>j \<in> linked edges. \<exists>i. component_of df' j = Num (int i)) \<and>
           (\<forall>j \<in> linked edges. \<forall>k \<in> linked edges.
              component_of df' j = component_of df' k \<longleftrightarrow> (j, k) \<in> connected edges)"
proof -
  from add_components_spec [OF assms] obtain df1 n_grams edges label where
    p: "prepare_frame textract df = Inr df1" and
    f: "frame_ngrams df1 n = Inr n_grams" and
    b: "build_edges n_grams threshold = Inr edges" and
    ln: "length n_grams = length (rows df)" and
    e1: "linked edges \<subseteq> {..<length (rows df)}" and
    e2: "\<forall>j < length (rows df). not_set (n_grams ! j) \<longrightarrow> j \<notin> linked edges" and
    lr: "length (rows df') = length (rows df)" and
    out: "\<forall>k < length (rows df). k \<notin> linked edges \<longrightarrow> rows df' ! k = rows df1 ! k" and
    inn: "\<forall>k \<in> linked edges.
            rows df' ! k = (rows df1 ! k)(''component'' \<mapsto> Num (int (label k)))" and
    lab: "\<forall>j \<in> linked edges. \<forall>k \<in> linked edges.
            label j = label k \<longleftrightarrow> (j, k) \<in> connected edges"
    by blast
  from prepare_frame_spec [OF p]
  have na: "\<forall>k < length (rows df). (rows df1 ! k) ''component'' = Some NA" by blast
  have c_out: "\<forall>j < length (rows df). j \<notin> linked edges \<longrightarrow> component_of df' j = NA"
    using out na by (simp add: component_of_def)
  have c_in: "\<And>j. j \<in> linked edges \<Longrightarrow> component_of df' j = Num (int (label j))"
    using inn by (simp add: component_of_def)
  have c_ex: "\<forall>j \<in> linked edges. \<exists>i. component_of df' j = Num (int i)"
    using c_in by blast
  have c_eq: "\<forall>j \<in> linked edges. \<forall>k \<in> linked edges.
              component_of df' j = component_of df' k \<longleftrightarrow> (j, k) \<in> connected edges"
    using c_in lab by simp
  from p f b ln lr e1 e2 c_out c_ex c_eq show ?thesis by blast
qed

theorem add_components_clusters_witness:
  "add_components no_textract docs_frame 2 (3 / 10) = Inr docs_frame_out \<and>
   component_column (Inr docs_frame_out) = Some [Num 0, NA, Num 0] \<and>
   component_of docs_frame_out 0 = component_of docs_frame_out 2 \<and>
   component_of docs_frame_out 1 = NA"
  using add_components_clusters [OF docs_run]
  by (simp add: docs_run component_column_def column_def component_of_def docs_frame_out_def)

text \<open>
  Claim C1 as stated fails: of two records that no edge joins, one of them without
  text, neither is assigned a component number. Both keep \<^verbatim>\<open>None\<close>, so neither forms a
  cluster of its own, and the two have the same value in the column without being
  connected.
\<close>

theorem isolated_records_counterexample:
  "component_column (add_components no_textract solo_frame 2 (3 / 10)) = Some [NA, NA]"
  by (simp add: add_components_def prepare_frame_def solo_frame_def set_column_def
      frame_ngrams_def column_def get_ngrams_inline str_split_def isspace_def ngrams_def
      deque_append_def build_edges_def jaccard_similarity_undefined write_components_def
      connected_components_def add_edges_from_def empty_graph_def component_column_def)

text \<open>
  Claim C10. When \<^verbatim>\<open>add_components\<close> returns, the frame has the same number of rows
  in the same order; its columns are the columns of the input followed by
  \<^verbatim>\<open>component\<close> and \<^verbatim>\<open>text_attachment\<close> where the input lacks them; every cell of
  every other column is unchanged, the cells of \<^verbatim>\<open>text_attachment\<close> too when the input
  has that column; and every row has a cell \<^verbatim>\<open>component\<close>.
\<close>

theorem add_components_frame:
  assumes "add_components textract df n threshold = Inr df'"
  shows "length (rows df') = length (rows df) \<and>
         columns df' = columns df @
           filter (\<lambda>c. c \<notin> set (columns df)) [''component'', ''text_attachment''] \<and>
         (\<forall>j < length (rows df). \<forall>c. c \<noteq> ''component'' \<longrightarrow>
            (c \<noteq> ''text_attachment'' \<or> ''text_attachment'' \<in> set (columns df)) \<longrightarrow>
            (rows df' ! j) c = (rows df ! j) c) \<and>
         (\<forall>j < length (rows df). \<exists>v. (rows df' ! j) ''component'' = Some v)"
proof -
  from add_components_spec [OF assms] obtain df1 edges label where
    p: "prepare_frame textract df = Inr df1" and
    e1: "linked edges \<subseteq> {..<length (rows df)}" and
    cols: "columns df' = columns df1" and
    lr: "length (rows df') = length (rows df)" and
    out: "\<forall>k < length (rows df). k \<notin> linked edges \<longrightarrow> rows df' ! k = rows df1 ! k" and
    inn: "\<forall>k \<in> linked edges.
            rows df' ! k = (rows df1 ! k)(''component'' \<mapsto> Num (int (label k)))"
    by blast
  from prepare_frame_spec [OF p]
  have c1: "columns df1 = columns df @
           filter (\<lambda>x. x \<notin> set (columns df)) [''component'', ''text_attachment'']"
    and na: "\<forall>k < length (rows df). (rows df1 ! k) ''component'' = Some NA"
    and keep: "\<forall>k < length (rows df). \<forall>c. c \<noteq> ''component'' \<longrightarrow>
            (c \<noteq> ''text_attachment'' \<or> ''text_attachment'' \<in> set (columns df)) \<longrightarrow>
            (rows df1 ! k) c = (rows df ! k) c"
    by blast+
  have same: "(rows df' ! j) c = (rows df1 ! j) c"
    if "j < length (rows df)" "c \<noteq> ''component''" for j c
  proof (cases "j \<in> linked edges")
    case True
    with inn that(2) show ?thesis by simp
  next
    case False
    with out that(1) show ?thesis by simp
  qed
  have 3: "\<forall>j < length (rows df). \<forall>c. c \<noteq> ''component'' \<longrightarrow>
            (c \<noteq> ''text_attachment'' \<or> ''text_attachment'' \<in> set (columns df)) \<longrightarrow>
            (rows df' ! j) c = (rows df ! j) c"
    using same keep by simp
  have 4: "\<forall>j < length (rows df). \<exists>v. (rows df' ! j) ''component'' = Some v"
  proof (intro allI impI)
    fix j assume j: "j < length (rows df)"
    show "\<exists>v. (rows df' ! j) ''component'' = Some v"
    proof (cases "j \<in> linked edges")
      case True
      with inn show ?thesis by simp
    next
      case False
      with out na j show ?thesis by simp
    qed
  qed
  from lr cols c1 3 4 show ?thesis by simp
qed

theorem add_components_frame_witness:
  "add_components no_textract docs_frame 2 (3 / 10) = Inr docs_frame_out \<and>
   length (rows docs_frame_out) = length (rows docs_frame) \<and>
   columns docs_frame_out = columns docs_frame @ [''component''] \<and>
   (rows docs_frame_out ! 0) ''text'' = (rows docs_frame ! 0) ''text'' \<and>
   (rows docs_frame_out ! 2) ''url'' = (rows docs_frame ! 2) ''url''"
  using add_components_frame [OF docs_run]
  by (simp add: docs_run) (simp add: docs_frame_def docs_frame_out_def)

section \<open>Properties of the crawl\<close>

lemma download_loop_step:
  "download_loop env name dl done page max_page responses requested =
     (case page_responses env name dl done page of
        Inl e \<Rightarrow> Inl e
      | Inr new \<Rightarrow>
         (case fetch_results env page of
            Inl e \<Rightarrow> Inl e
          | Inr soup \<Rightarrow>
             (case page_bound soup max_page of
                Inl e \<Rightarrow> Inl e
              | Inr m \<Rightarrow>
                  if int (Suc page) > m then Inr (responses @ new, requested @ [page])
                  else download_loop env name dl done (Suc page) (Some m)
                         (responses @ new) (requested @ [page]))))"
  by (subst download_loop.simps) (simp add: page_responses_def split: sum.splits)

lemma page_responses_fetch:
  "page_responses env name dl done p = Inr new \<Longrightarrow> \<exists>soup. fetch_results env p = Inr soup"
  by (auto simp: page_responses_def split: sum.splits)

lemma loop_from:
  assumes "m \<noteq> 0" and "int page \<le> m"
    and "\<forall>p \<in> {page..nat m}. \<exists>new. page_responses env name dl done p = Inr new"
  shows "\<exists>rs. download_loop env name dl done page (Some m) responses requested =
               Inr (rs, requested @ [page..<Suc (nat m)])"
  using assms(2,3)
proof (induction "nat m - page" arbitrary: page responses requested)
  case 0
  then have pm: "int page = m" by simp
  then have "page \<in> {page..nat m}" by simp
  with 0 obtain new where n: "page_responses env name dl done page = Inr new" by blast
  from page_responses_fetch [OF n] obtain soup where s: "fetch_results env page = Inr soup" ..
  have b: "page_bound soup (Some m) = Inr m" using assms(1) by (simp add: page_bound_def)
  have "[page..<Suc (nat m)] = [page]" using pm by auto
  then show ?case
    using pm by (subst download_loop_step) (simp add: n s b)
next
  case (Suc k)
  then have lt: "int (Suc page) \<le> m" by simp
  then have "page \<in> {page..nat m}" by simp
  with Suc.prems obtain new where n: "page_responses env name dl done page = Inr new" by blast
  from page_responses_fetch [OF n] obtain soup where s: "fetch_results env page = Inr soup" ..
  have b: "page_bound soup (Some m) = Inr m" using assms(1) by (simp add: page_bound_def)
  have k: "k = nat m - Suc page" using Suc.hyps(2) by simp
  have rest: "\<forall>p \<in> {Suc page..nat m}. \<exists>new. page_responses env name dl done p = Inr new"
    using Suc.prems(2) by simp
  from Suc.hyps(1) [OF k lt rest, of "responses @ new" "requested @ [page]"]
  obtain rs where r: "download_loop env name dl done (Suc page) (Some m) (responses @ new)
      (requested @ [page]) = Inr (rs, (requested @ [page]) @ [Suc page..<Suc (nat m)])" ..
  have "page < Suc (nat m)" using lt by linarith
  then have "[page..<Suc (nat m)] = page # [Suc page..<Suc (nat m)]"
    by (rule upt_conv_Cons)
  then show ?case
    using lt by (subst download_loop_step) (simp add: n s b r)
qed

lemma map_result_total:
  "\<forall>x \<in> set xs. f x = Inr (g x) \<Longrightarrow> map_result f xs = Inr (map g xs)"
  by (induction xs) simp_all

text \<open>
  The bound that lines 227 to 233 compute: if every pagination link with an \<^verbatim>\<open>href\<close>
  has a number as its text, and there is such a link, it is the largest of these
  numbers.
\<close>

lemma max_page_of_links:
  assumes "pagination soup = Some links"
    and "\<forall>l \<in> set links. snd l \<longrightarrow> fst l \<noteq> None"
    and "\<exists>l \<in> set links. snd l"
  shows "max_page_of soup = Inr (Max (linked_pages links)) \<and>
         finite (linked_pages links) \<and> linked_pages links \<noteq> {}"
proof -
  let ?f = "\<lambda>(txt, href). case txt of None \<Rightarrow> Inl ValueError | Some k \<Rightarrow> Inr (k :: int)"
  let ?ks = "map (the \<circ> fst) (filter snd links)"
  have "\<forall>x \<in> set (filter snd links). ?f x = Inr ((the \<circ> fst) x)"
    using assms(2) by (auto split: option.splits)
  then have m: "map_result ?f (filter snd links) = Inr ?ks"
    by (rule map_result_total)
  have ne: "?ks \<noteq> []"
    using assms(3) by (auto simp: filter_empty_conv)
  have s: "set ?ks = linked_pages links"
  proof (rule set_eqI)
    fix k
    show "k \<in> set ?ks \<longleftrightarrow> k \<in> linked_pages links"
    proof
      assume "k \<in> set ?ks"
      then obtain l where l: "l \<in> set links" "snd l" "k = the (fst l)" by auto
      with assms(2) obtain j where j: "fst l = Some j" by auto
      from l(2,3) j have "l = (Some k, True)" by (cases l) simp
      with l(1) show "k \<in> linked_pages links" by (simp add: linked_pages_def)
    next
      assume "k \<in> linked_pages links"
      then have "(Some k, True) \<in> set (filter snd links)" by (simp add: linked_pages_def)
      then have "(the \<circ> fst) (Some k, True) \<in> set ?ks" by (simp only: set_map imageI)
      then show "k \<in> set ?ks" by simp
    qed
  qed
  have "max_page_of soup = Inr (Max (set ?ks))"
    using assms(1) m ne by (simp add: max_page_of_def)
  moreover have "finite (set ?ks)" by (rule finite_set)
  moreover have "set ?ks \<noteq> {}" using ne by (metis set_empty)
  ultimately show ?thesis unfolding s by simp
qed

text \<open>
  Claim C8. The page bound \<open>M\<close> is determined from the pagination block of the first
  result page: it is the largest page number among the links of that block that have
  an \<^verbatim>\<open>href\<close> (each such link has a number as its text, and there is at least one). If
  the pages 1 to \<open>M\<close> can be fetched and parsed, then the crawl loop returns normally,
  and the result pages it has requested are exactly the pages 1 to \<open>M\<close>, in this order:
  it stops as soon as the next page index exceeds \<open>M\<close>. The pagination of no other page
  is read. The first page is requested in any case, so for \<open>M < 1\<close> page 1 is the one
  page requested.
\<close>

theorem pagination_terminates:
  assumes "fetch_results env 1 = Inr soup"
    and "pagination soup = Some links"
    and "\<forall>l \<in> set links. snd l \<longrightarrow> fst l \<noteq> None"
    and "\<exists>l \<in> set links. snd l"
    and "M = Max (linked_pages links)"
    and "\<forall>p \<in> {1..nat (max 1 M)}. \<exists>new. page_responses env name dl done p = Inr new"
  shows "max_page_of soup = Inr M \<and>
         M \<in> linked_pages links \<and> (\<forall>k \<in> linked_pages links. k \<le> M) \<and>
         (\<exists>rs. download_loop env name dl done 1 None responses [] =
                 Inr (rs, [1..<Suc (nat (max 1 M))]))"
proof -
  from max_page_of_links [OF assms(2,3,4)] assms(5) have
    m: "max_page_of soup = Inr M" and
    f: "finite (linked_pages links)" and
    e: "linked_pages links \<noteq> {}"
    by simp_all
  have mx: "M \<in> linked_pages links" "\<forall>k \<in> linked_pages links. k \<le> M"
    using f e assms(5) by simp_all
  have "1 \<in> {1..nat (max 1 M)}" by simp
  with assms(6) obtain new where n: "page_responses env name dl done 1 = Inr new" by blast
  note s = assms(1)
  have b: "page_bound soup None = Inr M" by (simp add: page_bound_def m)
  have step: "download_loop env name dl done 1 None responses [] =
      (if int (Suc 1) > M then Inr (responses @ new, [] @ [1])
       else download_loop env name dl done (Suc 1) (Some M) (responses @ new) ([] @ [1]))"
    by (subst download_loop_step) (simp only: n s b sum.case)
  have "\<exists>rs. download_loop env name dl done 1 None responses [] =
               Inr (rs, [1..<Suc (nat (max 1 M))])"
  proof (cases "2 > M")
    case True
    then have "nat (max 1 M) = 1" by (auto simp: max_def)
    then have "[1..<Suc (nat (max 1 M))] = [1]" by simp
    with True show ?thesis unfolding step by simp
  next
    case False
    then have M: "M \<noteq> 0" "int (Suc 1) \<le> M" "max 1 M = M" by simp_all
    have rest: "\<forall>p \<in> {Suc 1..nat M}. \<exists>new. page_responses env name dl done p = Inr new"
      using assms(6) M by simp
    from loop_from [OF M(1,2) rest, of "responses @ new" "[] @ [1]"]
    obtain rs where r: "download_loop env name dl done (Suc 1) (Some M) (responses @ new)
        ([] @ [1]) = Inr (rs, ([] @ [1]) @ [Suc 1..<Suc (nat M)])" ..
    have "1 < Suc (nat M)" using M(2) by linarith
    then have "[1..<Suc (nat M)] = 1 # [Suc 1..<Suc (nat M)]"
      by (rule upt_conv_Cons)
    with False r M(3) show ?thesis unfolding step by simp
  qed
  with m mx show ?thesis by simp
qed

lemma get_response_url:
  "get_response http url name dl = Inr r \<Longrightarrow> url_cell r = Some (Str url)"
  by (auto simp: get_response_def url_cell_def Let_def split: sum.splits option.splits if_splits)

lemma map_result_urls:
  "map_result (\<lambda>url. get_response http url name dl) us = Inr new \<Longrightarrow>
     map url_cell new = map (\<lambda>u. Some (Str u)) us"
proof (induction us arbitrary: new)
  case Nil
  then show ?case by simp
next
  case (Cons u us)
  then obtain r rs where r: "get_response http u name dl = Inr r"
    "map_result (\<lambda>url. get_response http url name dl) us = Inr rs" "new = r # rs"
    by (auto split: sum.splits)
  with Cons.IH [OF r(2)] get_response_url [OF r(1)] show ?case by simp
qed

lemma page_responses_urls:
  "page_responses env name dl done p = Inr new \<Longrightarrow>
     map url_cell new = map (\<lambda>u. Some (Str u)) (filter (\<lambda>u. Str u \<notin> set done) (urls_of env p))"
  by (auto simp: page_responses_def urls_of_def split: sum.splits dest: map_result_urls)

lemma loop_result:
  assumes "download_loop env name dl done page max_page responses requested = Inr (rs, ps)"
  shows "\<exists>pages new.
           ps = requested @ page # pages \<and> rs = responses @ new \<and>
           map url_cell new =
             map (\<lambda>u. Some (Str u))
               (filter (\<lambda>u. Str u \<notin> set done) (concat (map (urls_of env) (page # pages))))"
  using assms
proof (induction env name dl "done" page max_page responses requested
    rule: download_loop.induct)
  case (1 env name dl "done" page max_page responses requested)
  from "1.prems" obtain new where n: "page_responses env name dl done page = Inr new"
    by (subst (asm) download_loop_step) (auto split: sum.splits)
  then obtain soup urls where s: "fetch_results env page = Inr soup"
    and u: "get_result_urls soup = Inr urls"
    and mr: "map_result (\<lambda>url. get_response (fetch_response env) url name dl)
               (filter (\<lambda>url. Str url \<notin> set done) urls) = Inr new"
    by (auto simp: page_responses_def split: sum.splits)
  from "1.prems" n s obtain m where b: "page_bound soup max_page = Inr m"
    by (subst (asm) download_loop_step) (auto split: sum.splits)
  note nu = page_responses_urls [OF n]
  show ?case
  proof (cases "int (Suc page) > m")
    case True
    with "1.prems" n s b have "rs = responses @ new" "ps = requested @ [page]"
      by (subst (asm) download_loop_step, simp)+
    with nu show ?thesis by simp
  next
    case False
    with "1.prems" n s b have
      r: "download_loop env name dl done (Suc page) (Some m) (responses @ new)
            (requested @ [page]) = Inr (rs, ps)"
      by (subst (asm) download_loop_step) simp
    from "1.IH" [OF s u mr b False r] obtain pages new' where
      p: "ps = (requested @ [page]) @ Suc page # pages" and
      q: "rs = (responses @ new) @ new'" and
      w: "map url_cell new' = map (\<lambda>u. Some (Str u))
            (filter (\<lambda>u. Str u \<notin> set done)
               (concat (map (urls_of env) (Suc page # pages))))"
      by blast
    have "map url_cell (new @ new') = map (\<lambda>u. Some (Str u))
            (filter (\<lambda>u. Str u \<notin> set done)
               (concat (map (urls_of env) (page # Suc page # pages))))"
      using nu w by simp
    with p q show ?thesis by (intro exI [of _ "Suc page # pages"] exI [of _ "new @ new'"]) simp
  qed
qed

lemma loop_rerun:
  assumes "download_loop env name dl done page max_page responses requested = Inr (rs, ps)"
    and "\<forall>p \<in> set (drop (length requested) ps). \<forall>u \<in> set (urls_of env p). Str u \<in> set done'"
  shows "download_loop env name dl done' page max_page responses' requested =
           Inr (responses', ps)"
  using assms
proof (induction env name dl "done" page max_page responses requested
    arbitrary: responses' rule: download_loop.induct)
  case (1 env name dl "done" page max_page responses requested)
  from "1.prems"(1) obtain new where n: "page_responses env name dl done page = Inr new"
    by (subst (asm) download_loop_step) (auto split: sum.splits)
  then obtain soup urls where s: "fetch_results env page = Inr soup"
    and u: "get_result_urls soup = Inr urls"
    and mr: "map_result (\<lambda>url. get_response (fetch_response env) url name dl)
               (filter (\<lambda>url. Str url \<notin> set done) urls) = Inr new"
    by (auto simp: page_responses_def split: sum.splits)
  from "1.prems"(1) n s obtain m where b: "page_bound soup max_page = Inr m"
    by (subst (asm) download_loop_step) (auto split: sum.splits)
  from loop_result [OF "1.prems"(1)] obtain pages where ps: "ps = requested @ page # pages"
    by blast
  then have here: "\<forall>u \<in> set (urls_of env page). Str u \<in> set done'"
    using "1.prems"(2) by simp
  have uo: "urls_of env page = urls" by (simp add: urls_of_def s u)
  have "filter (\<lambda>url. Str url \<notin> set done') urls = []"
    using here uo by (simp add: filter_empty_conv)
  then have n': "page_responses env name dl done' page = Inr []"
    by (simp add: page_responses_def s u)
  show ?case
  proof (cases "int (Suc page) > m")
    case True
    with "1.prems"(1) n s b have "ps = requested @ [page]"
      by (subst (asm) download_loop_step) simp
    with True show ?thesis
      by (subst download_loop_step) (simp add: n' s b)
  next
    case False
    with "1.prems"(1) n s b have
      r: "download_loop env name dl done (Suc page) (Some m) (responses @ new)
            (requested @ [page]) = Inr (rs, ps)"
      by (subst (asm) download_loop_step) simp
    have rest: "\<forall>p \<in> set (drop (length (requested @ [page])) ps).
                  \<forall>u \<in> set (urls_of env p). Str u \<in> set done'"
      using "1.prems"(2) ps by simp
    from "1.IH" [OF s u mr b False r rest, of responses']
    have "download_loop env name dl done' (Suc page) (Some m) responses' (requested @ [page]) =
            Inr (responses', ps)" .
    with False show ?thesis
      by (subst download_loop_step) (simp add: n' s b)
  qed
qed

lemma plain_get_response:
  "get_response plain_response url True False = Inr (plain_row url)"
  by (simp add: get_response_def plain_response_def parse_table_def plain_row_def)

lemma clean_run:
  "download_responses_crawl clean_pages True False None = Inr (clean_rows, [1, 2])"
  by (simp add: download_responses_crawl_def download_loop.simps clean_pages_def
      get_result_urls_def get_url_def plain_get_response max_page_of_def page_bound_def
      clean_rows_def)

lemma shifted_run:
  "download_responses_crawl shifted_pages True False None =
     Inr ([plain_row (BASE @ ''/a''), plain_row (BASE @ ''/b''), plain_row (BASE @ ''/b''),
           plain_row (BASE @ ''/c'')], [1, 2])"
  by (simp add: download_responses_crawl_def download_loop.simps shifted_pages_def
      get_result_urls_def get_url_def plain_get_response max_page_of_def page_bound_def)

lemma crawl_loop:
  assumes "download_responses_crawl env name dl stored = Inr (rs, ps)"
  shows "download_loop env name dl (prior_done stored) 1 None (prior_rows stored) [] =
           Inr (rs, ps)"
  using assms
  by (cases stored)
     (auto simp: download_responses_crawl_def prior_done_def prior_rows_def column_def
       split: sum.splits if_splits)

lemma done_cell:
  "(case r ''url'' of None \<Rightarrow> NA | Some v \<Rightarrow> v) = Str u \<longleftrightarrow> url_cell r = Some (Str u)"
  by (cases "r ''url''") (simp_all add: url_cell_def)

lemma done_cells:
  "Str u \<in> set (map (\<lambda>r. case r ''url'' of None \<Rightarrow> NA | Some v \<Rightarrow> v) rs) \<longleftrightarrow>
   Some (Str u) \<in> set (map url_cell rs)"
proof (induction rs)
  case Nil
  show ?case by simp
next
  case (Cons r rs)
  have "Str u = (case r ''url'' of None \<Rightarrow> NA | Some v \<Rightarrow> v) \<longleftrightarrow> Some (Str u) = url_cell r"
    using done_cell [of r u] by (simp only: eq_commute)
  with Cons show ?case by simp
qed

text \<open>
  Claim C5, amended. When the crawl returns, the records are the records of the loaded
  state followed by one new record for every listed url, in the order of listing, that
  is not an identifier of the loaded state: identifiers of the prior state are filtered
  out before fetching. If the loaded state has no two records with the same identifier
  and the source lists no url twice on the pages of the run, the records have no
  identifier twice; urls first collected within the run are not compared with each
  other. A restart from any stored frame with the same identifiers, over the same
  source, fetches the same pages and adds no record.
\<close>

theorem crawl_resume:
  assumes "download_responses_crawl env name dl stored = Inr (rs, ps)"
  shows "\<exists>new.
           rs = prior_rows stored @ new \<and>
           map url_cell new =
             map (\<lambda>u. Some (Str u))
               (filter (\<lambda>u. Str u \<notin> set (prior_done stored)) (concat (map (urls_of env) ps))) \<and>
           (distinct (map url_cell (prior_rows stored)) \<and>
            distinct (concat (map (urls_of env) ps)) \<longrightarrow> distinct (map url_cell rs)) \<and>
           (\<forall>df. ''url'' \<in> set (columns df) \<and> map url_cell (rows df) = map url_cell rs \<longrightarrow>
              download_responses_crawl env name dl (Some df) = Inr (rows df, ps))"
proof -
  let ?done = "prior_done stored" and ?prior = "prior_rows stored"
  let ?listed = "concat (map (urls_of env) ps)"
  note L = crawl_loop [OF assms]
  from loop_result [OF L] obtain pages new where
    ps: "ps = 1 # pages" and rs: "rs = ?prior @ new" and
    nu: "map url_cell new = map (\<lambda>u. Some (Str u)) (filter (\<lambda>u. Str u \<notin> set ?done) ?listed)"
    by auto
  have pd: "Str u \<in> set ?done \<longleftrightarrow> Some (Str u) \<in> set (map url_cell ?prior)" for u
    using done_cells [of u ?prior] by (cases stored) (simp_all add: prior_done_def prior_rows_def)
  have d: "distinct (map url_cell rs)"
    if dp: "distinct (map url_cell ?prior)" and dl: "distinct ?listed"
  proof -
    have "distinct (map (\<lambda>u. Some (Str u)) (filter (\<lambda>u. Str u \<notin> set ?done) ?listed))"
      using dl by (simp add: distinct_map inj_on_def)
    then have dn: "distinct (map url_cell new)" by (simp add: nu)
    have "set (map url_cell ?prior) \<inter> set (map url_cell new) = {}"
    proof (rule ccontr)
      assume "\<not> ?thesis"
      then obtain c where c: "c \<in> set (map url_cell ?prior)" "c \<in> set (map url_cell new)"
        by blast
      from c(2) obtain u where "c = Some (Str u)" "Str u \<notin> set ?done"
        unfolding nu by auto
      with c(1) pd show False by simp
    qed
    with dp dn show ?thesis unfolding rs by simp
  qed
  have r: "download_responses_crawl env name dl (Some df) = Inr (rows df, ps)"
    if cu: "''url'' \<in> set (columns df)" and same: "map url_cell (rows df) = map url_cell rs" for df
  proof -
    let ?done2 = "map (\<lambda>r. case r ''url'' of None \<Rightarrow> NA | Some v \<Rightarrow> v) (rows df)"
    have all: "\<forall>p \<in> set (drop (length ([] :: nat list)) ps). \<forall>u \<in> set (urls_of env p).
                 Str u \<in> set ?done2"
    proof (intro ballI)
      fix p u assume p: "p \<in> set (drop (length ([] :: nat list)) ps)" and u: "u \<in> set (urls_of env p)"
      then have ul: "u \<in> set ?listed" by auto
      have "Some (Str u) \<in> set (map url_cell rs)"
      proof (cases "Str u \<in> set ?done")
        case True
        with pd show ?thesis unfolding rs by simp
      next
        case False
        with ul have "Some (Str u) \<in> set (map url_cell new)" unfolding nu by simp
        then show ?thesis unfolding rs by simp
      qed
      then show "Str u \<in> set ?done2" using done_cells [of u "rows df"] same by simp
    qed
    from loop_rerun [OF L all, of "rows df"] cu show ?thesis
      by (simp add: download_responses_crawl_def column_def)
  qed
  from rs nu d r show ?thesis by blast
qed

theorem crawl_resume_witness:
  "download_responses_crawl clean_pages True False None = Inr (clean_rows, [1, 2]) \<and>
   stored_urls (Inr (clean_rows, [1, 2])) =
     Some [Some (Str ''https://www.internetconsultatie.nl/a''),
           Some (Str ''https://www.internetconsultatie.nl/b''),
           Some (Str ''https://www.internetconsultatie.nl/c'')] \<and>
   download_responses_crawl clean_pages True False (Some clean_frame) =
     Inr (clean_rows, [1, 2])"
proof -
  from crawl_resume [OF clean_run] have
    "\<forall>df. ''url'' \<in> set (columns df) \<and> map url_cell (rows df) = map url_cell clean_rows \<longrightarrow>
       download_responses_crawl clean_pages True False (Some df) = Inr (rows df, [1, 2])"
    by blast
  then have "download_responses_crawl clean_pages True False (Some clean_frame) =
      Inr (rows clean_frame, [1, 2])"
    by (simp add: clean_frame_def)
  then show ?thesis
    by (simp add: clean_run clean_frame_def)
       (simp add: stored_urls_def clean_rows_def plain_row_def url_cell_def BASE_def)
qed

text \<open>
  Claim C5 as stated fails: a run from the empty state over a source that lists
  \<^verbatim>\<open>/b\<close> on both of its pages stores two records with that identifier.
\<close>

theorem repeated_listing_counterexample:
  "stored_urls (download_responses_crawl shifted_pages True False None) =
     Some [Some (Str ''https://www.internetconsultatie.nl/a''),
           Some (Str ''https://www.internetconsultatie.nl/b''),
           Some (Str ''https://www.internetconsultatie.nl/b''),
           Some (Str ''https://www.internetconsultatie.nl/c'')] \<and>
   \<not> distinct [''https://www.internetconsultatie.nl/a'',
                ''https://www.internetconsultatie.nl/b'',
                ''https://www.internetconsultatie.nl/b'',
                ''https://www.internetconsultatie.nl/c'']"
  by (simp add: shifted_run stored_urls_def plain_row_def url_cell_def BASE_def)

lemma first_linked_pages: "linked_pages first_links = {2, 3}"
  by (auto simp: linked_pages_def first_links_def)

lemma three_page_responses:
  "\<forall>p \<in> {1..nat (max 1 3)}. \<exists>new. page_responses three_pages True False [] p = Inr new"
proof
  fix p :: nat assume "p \<in> {1..nat (max 1 3)}"
  then have "p = 1 \<or> p = 2 \<or> p = 3" by auto
  then show "\<exists>new. page_responses three_pages True False [] p = Inr new"
    by (auto simp: page_responses_def three_pages_def first_page_def get_result_urls_def
        get_url_def plain_get_response)
qed

lemma three_run:
  "download_loop three_pages True False [] 1 None [] [] = Inr (clean_rows, [1, 2, 3])"
  by (simp add: download_loop.simps three_pages_def first_page_def first_links_def
      get_result_urls_def get_url_def plain_get_response max_page_of_def page_bound_def
      clean_rows_def)

theorem pagination_terminates_witness:
  "fetch_results three_pages 1 = Inr first_page \<and>
   pagination first_page = Some first_links \<and>
   linked_pages first_links = {2, 3} \<and>
   max_page_of first_page = Inr 3 \<and>
   download_loop three_pages True False [] 1 None [] [] = Inr (clean_rows, [1, 2, 3])"
proof -
  have h1: "fetch_results three_pages 1 = Inr first_page" by (simp add: three_pages_def)
  have h2: "pagination first_page = Some first_links" by (simp add: first_page_def)
  have h3: "\<forall>l \<in> set first_links. snd l \<longrightarrow> fst l \<noteq> None" by (simp add: first_links_def)
  have h4: "\<exists>l \<in> set first_links. snd l" by (simp add: first_links_def)
  have h5: "(3 :: int) = Max (linked_pages first_links)" by (simp add: first_linked_pages)
  from pagination_terminates [OF h1 h2 h3 h4 h5 three_page_responses, of "[]"]
  have "max_page_of first_page = Inr 3" by simp
  with h1 h2 first_linked_pages three_run show ?thesis by simp
qed

section \<open>Configuration\<close>
























end
